theory Spec2Isabelle
  imports Main "HOL-Library.Sublist" "HOL-Library.Monad_Syntax"
begin

section \<open>The byte buffer of the Go library\<close>

text \<open>
  \<^verbatim>\<open>markdownify\<close> reads its input from a \<^verbatim>\<open>bytes.Buffer\<close> and writes its output to
  another one. The buffer is modelled with the three fields it has in the Go library:
  the contents, the read offset, and the kind of the last read operation, on which the
  unread operations depend. Bytes are \<^typ>\<open>char\<close> (eight bits), a Go string is a
  \<^typ>\<open>string\<close>.
\<close>

type_synonym byte = char

datatype error = EOF | ErrUnreadByte | ErrUnreadRune

record Buffer =
  buf :: string
  off :: nat
  lastRead :: int

definition opRead :: int where
  "opRead = - 1"

definition opInvalid :: int where
  "opInvalid = 0"

text \<open>\<^verbatim>\<open>new(bytes.Buffer)\<close> is \<open>NewBuffer []\<close>; a buffer that has only been written to,
  with contents \<open>s\<close>, is \<open>NewBuffer s\<close>.\<close>

definition NewBuffer :: "string \<Rightarrow> Buffer" where
  "NewBuffer s = \<lparr>buf = s, off = 0, lastRead = opInvalid\<rparr>"

definition empty :: "Buffer \<Rightarrow> bool" where
  "empty b = (length (buf b) \<le> off b)"

definition Reset :: "Buffer \<Rightarrow> Buffer" where
  "Reset b = b\<lparr>buf := [], off := 0, lastRead := opInvalid\<rparr>"

text \<open>The unread portion \<^verbatim>\<open>b.buf[b.off:]\<close>, which is also what \<^verbatim>\<open>String\<close> returns.\<close>

definition String :: "Buffer \<Rightarrow> string" where
  "String b = drop (off b) (buf b)"

text \<open>A read at the end of the buffer resets it and returns the zero byte with
  \<^verbatim>\<open>io.EOF\<close>.\<close>

definition ReadByte :: "Buffer \<Rightarrow> (byte \<times> error option) \<times> Buffer" where
  "ReadByte b =
     (if empty b then ((CHR 0x00, Some EOF), Reset b)
      else ((buf b ! off b, None), b\<lparr>off := off b + 1, lastRead := opRead\<rparr>))"

text \<open>Only one byte can be unread: the call clears \<open>lastRead\<close>, and fails when it is
  already clear.\<close>

definition UnreadByte :: "Buffer \<Rightarrow> error option \<times> Buffer" where
  "UnreadByte b =
     (if lastRead b = opInvalid then (Some ErrUnreadByte, b)
      else (None, b\<lparr>lastRead := opInvalid, off := (if 0 < off b then off b - 1 else off b)\<rparr>))"

definition WriteByte :: "Buffer \<Rightarrow> byte \<Rightarrow> Buffer" where
  "WriteByte b c = b\<lparr>lastRead := opInvalid, buf := buf b @ [c]\<rparr>"

definition WriteString :: "Buffer \<Rightarrow> string \<Rightarrow> Buffer" where
  "WriteString b s = b\<lparr>lastRead := opInvalid, buf := buf b @ s\<rparr>"

subsection \<open>Runes\<close>

text \<open>\<^verbatim>\<open>utf8.DecodeRune\<close>: the code point (a natural number) and the width in bytes of
  the first UTF-8 sequence of \<open>p\<close>; an invalid sequence is \<open>RuneError\<close> of width 1.\<close>

definition RuneError :: nat where
  "RuneError = 0xFFFD"

definition DecodeRune :: "string \<Rightarrow> nat \<times> nat" where
  "DecodeRune p =
     (case p of
        [] \<Rightarrow> (RuneError, 0)
      | c0 # _ \<Rightarrow>
          (let p0 = (of_char c0 :: nat) in
           if p0 < 0x80 then (p0, 1)
           else if p0 < 0xC2 \<or> 0xF4 < p0 then (RuneError, 1)
           else
             (let sz = (if p0 < 0xE0 then 2 else if p0 < 0xF0 then 3 else 4 :: nat);
                  lo = (if p0 = 0xE0 then 0xA0 else if p0 = 0xF0 then 0x90 else 0x80 :: nat);
                  hi = (if p0 = 0xED then 0x9F else if p0 = 0xF4 then 0x8F else 0xBF :: nat)
              in
              if length p < sz then (RuneError, 1)
              else
                (let b1 = (of_char (p ! 1) :: nat) in
                 if b1 < lo \<or> hi < b1 then (RuneError, 1)
                 else if sz \<le> 2 then ((p0 mod 32) * 64 + b1 mod 64, 2)
                 else
                   (let b2 = (of_char (p ! 2) :: nat) in
                    if b2 < 0x80 \<or> 0xBF < b2 then (RuneError, 1)
                    else if sz \<le> 3 then
                      ((p0 mod 16) * 4096 + (b1 mod 64) * 64 + b2 mod 64, 3)
                    else
                      (let b3 = (of_char (p ! 3) :: nat) in
                       if b3 < 0x80 \<or> 0xBF < b3 then (RuneError, 1)
                       else ((p0 mod 8) * 262144 + (b1 mod 64) * 4096
                               + (b2 mod 64) * 64 + b3 mod 64, 4)))))))"

text \<open>\<^verbatim>\<open>unicode.IsSpace\<close>: the Latin-1 spaces, and the code points of the White_Space
  table above Latin-1.\<close>

definition IsSpace :: "nat \<Rightarrow> bool" where
  "IsSpace n =
     (if n \<le> 0xFF then n \<in> {0x09, 0x0A, 0x0B, 0x0C, 0x0D, 0x20, 0x85, 0xA0}
      else n = 0x1680 \<or> (0x2000 \<le> n \<and> n \<le> 0x200A) \<or> n = 0x2028 \<or> n = 0x2029
           \<or> n = 0x202F \<or> n = 0x205F \<or> n = 0x3000)"

definition ReadRune :: "Buffer \<Rightarrow> (nat \<times> nat \<times> error option) \<times> Buffer" where
  "ReadRune b =
     (if empty b then ((0, 0, Some EOF), Reset b)
      else
        (let c = buf b ! off b in
         if (of_char c :: nat) < 0x80
         then ((of_char c, 1, None), b\<lparr>off := off b + 1, lastRead := 1\<rparr>)
         else
           (let (n, size) = DecodeRune (drop (off b) (buf b)) in
            ((n, size, None), b\<lparr>off := off b + size, lastRead := int size\<rparr>))))"

definition UnreadRune :: "Buffer \<Rightarrow> error option \<times> Buffer" where
  "UnreadRune b =
     (if lastRead b \<le> opInvalid then (Some ErrUnreadRune, b)
      else (None, b\<lparr>off := (if nat (lastRead b) \<le> off b then off b - nat (lastRead b)
                               else off b),
                      lastRead := opInvalid\<rparr>))"

section \<open>markdownify\<close>

definition escapeByte :: byte where
  "escapeByte = CHR 0x5C"

text \<open>
  One pass through the body of the \<^verbatim>\<open>for\<close> loop of \<^verbatim>\<open>markdownify\<close>, on its four
  variables: the reader \<open>r\<close>, the writer \<open>w\<close>, the lookback byte \<^verbatim>\<open>last\<close> (here
  \<open>lastb\<close>) and the flag \<open>inCode\<close>. The result is \<open>None\<close> when the first \<^verbatim>\<open>ReadByte\<close>
  fails, where the source returns \<^verbatim>\<open>w.String()\<close>, and otherwise the four variables as
  the next pass finds them, the final \<^verbatim>\<open>last = b\<close> done. The single quote is
  \<open>CHR 0x27\<close>, the backtick \<open>CHR 0x60\<close>. Errors the source discards with \<^verbatim>\<open>_\<close> are
  discarded here; a failed \<^verbatim>\<open>ReadByte\<close> returns the zero byte. In the asterisk case
  the source calls \<^verbatim>\<open>UnreadByte\<close> on the writer \<open>w\<close>, and so does the model.
\<close>

definition iteration ::
  "Buffer \<Rightarrow> Buffer \<Rightarrow> byte \<Rightarrow> bool \<Rightarrow> (Buffer \<times> Buffer \<times> byte \<times> bool) option" where
  "iteration r w lastb inCode =
     (let ((b, err), r1) = ReadByte r in
      if err \<noteq> None then None
      else if b = CHR ''<'' then
        (if lastb \<noteq> escapeByte \<and> \<not> inCode
         then Some (r1, WriteByte w (CHR 0x60), b, inCode)
         else Some (r1, WriteByte w b, b, inCode))
      else if b = CHR ''>'' then
        (if lastb \<noteq> escapeByte \<and> \<not> inCode
         then Some (r1, WriteByte w (CHR 0x60), b, inCode)
         else Some (r1, WriteByte w b, b, inCode))
      else if b = CHR 0x27 then
        (let ((b1, _), r2) = ReadByte r1;
             ((b2, _), r3) = ReadByte r2
         in
         if b1 = b \<and> b2 = b then
           (let w1 = WriteString w [CHR 0x60, CHR 0x60, CHR 0x60];
                (w2, r5) =
                  (if \<not> inCode then
                     (let ((n, _, err), r4) = ReadRune r3 in
                      if err = None then
                        (let w2 = (if IsSpace n then WriteString w1 ''shell'' else w1);
                             (_, r5) = UnreadRune r4
                         in (w2, r5))
                      else (w1, r4))
                   else (w1, r3))
            in Some (r5, w2, b, \<not> inCode))
         else
           (let w1 = WriteByte w b;
                (_, r4) = UnreadByte r3;
                (_, r5) = UnreadByte r4
            in Some (r5, w1, b, inCode)))
      else if b = CHR ''*'' then
        (if inCode then
           (let ((b1, _), r2) = ReadByte r1 in
            if b1 \<noteq> CHR ''*'' then
              (let w1 = WriteByte w b;
                   (_, w2) = UnreadByte w1
               in Some (r2, w2, b, inCode))
            else Some (r2, w, b, inCode))
         else Some (r1, WriteByte w b, b, inCode))
      else if b = escapeByte then
        (if lastb = escapeByte
         then Some (r1, WriteByte w escapeByte, CHR 0x00, inCode)
         else Some (r1, w, b, inCode))
      else Some (r1, WriteByte w b, b, inCode))"

definition remaining :: "Buffer \<Rightarrow> nat" where
  "remaining b = length (buf b) - off b"

lemma iteration_remaining:
  assumes "iteration r w lastb inCode = Some (r', w', lastb', inCode')"
  shows "remaining r' < remaining r"
  using assms
  by (auto simp: iteration_def ReadByte_def UnreadByte_def ReadRune_def UnreadRune_def
      Reset_def empty_def remaining_def opRead_def opInvalid_def Let_def
      split: if_splits prod.splits)

function markdownify_loop :: "Buffer \<Rightarrow> Buffer \<Rightarrow> byte \<Rightarrow> bool \<Rightarrow> string" where
  "markdownify_loop r w lastb inCode =
     (case iteration r w lastb inCode of
        None \<Rightarrow> String w
      | Some (r', w', lastb', inCode') \<Rightarrow> markdownify_loop r' w' lastb' inCode')"
  by pat_completeness auto

termination
  apply (relation "measure (\<lambda>(r, w, lastb, inCode). remaining r)")
  apply simp
  apply (auto dest: iteration_remaining)
  done

definition markdownify :: "Buffer \<Rightarrow> string" where
  "markdownify r = markdownify_loop r (NewBuffer []) (CHR 0x00) False"


declare markdownify_loop.simps [simp del]

subsection \<open>The scanner on lists\<close>

text \<open>
  What the loop does, told on the unread bytes alone. \<open>spaceAhead xs\<close> is the test the
  opening fence makes on the rune that follows it; \<open>scan lastb inCode xs\<close> is the output
  the loop adds when it starts on the unread bytes \<open>xs\<close>. That the loop computes exactly
  this is lemma \<open>loop_scan\<close> below; nothing is assumed about it.
\<close>

definition spaceAhead :: "string \<Rightarrow> bool" where
  "spaceAhead xs = (xs \<noteq> [] \<and> IsSpace (fst (DecodeRune xs)))"

fun scan :: "byte \<Rightarrow> bool \<Rightarrow> string \<Rightarrow> string" where
  "scan l c [] = []"
| "scan l c (b # xs) =
     (if b = CHR ''<'' \<or> b = CHR ''>'' then
        (if l \<noteq> escapeByte \<and> \<not> c then CHR 0x60 else b) # scan b c xs
      else if b = CHR 0x27 then
        (case xs of
           b1 # b2 # ys \<Rightarrow>
             if b1 = CHR 0x27 \<and> b2 = CHR 0x27
             then [CHR 0x60, CHR 0x60, CHR 0x60]
                  @ (if \<not> c \<and> spaceAhead ys then ''shell'' else [])
                  @ scan b (\<not> c) ys
             else b # scan b c (b2 # ys)
         | _ \<Rightarrow> [b])
      else if b = CHR ''*'' then
        (if c then
           (case xs of
              [] \<Rightarrow> [b]
            | b1 # ys \<Rightarrow> if b1 \<noteq> CHR ''*'' then b # scan b c ys else scan b c ys)
         else b # scan b c xs)
      else if b = escapeByte then
        (if l = escapeByte then escapeByte # scan (CHR 0x00) c xs else scan b c xs)
      else b # scan b c xs)"

section \<open>helpPreprocessor\<close>

subsection \<open>Strings, slices and the two regular expressions\<close>

text \<open>\<^verbatim>\<open>strings.Index\<close>: the index of the first occurrence of \<open>sub\<close> in \<open>s\<close>, or \<open>-1\<close>.\<close>

fun Index :: "string \<Rightarrow> string \<Rightarrow> int" where
  "Index [] sub = (if sub = [] then 0 else - 1)"
| "Index (c # cs) sub =
     (if prefix sub (c # cs) then 0
      else (let i = Index cs sub in if i = - 1 then - 1 else i + 1))"

text \<open>The slice expression \<^verbatim>\<open>s[lo:hi]\<close>; \<open>None\<close> is the run-time panic of Go when the
  bounds are out of range.\<close>

definition slice :: "string \<Rightarrow> int \<Rightarrow> int \<Rightarrow> string option" where
  "slice s lo hi =
     (if 0 \<le> lo \<and> lo \<le> hi \<and> hi \<le> int (length s)
      then Some (take (nat (hi - lo)) (drop (nat lo) s)) else None)"

text \<open>
  \<^verbatim>\<open>sectionRe = (?m:^##)\<close>. \<open>sectionRe_find bol t\<close> is the offset of the leftmost match in
  \<open>t\<close>, where \<open>bol\<close> says whether the first position of \<open>t\<close> begins a line (it does at the
  start of the text, and after a newline). \<^verbatim>\<open>FindStringIndex\<close> returns the two ends of
  the match, or \<^verbatim>\<open>nil\<close>.
\<close>

fun sectionRe_find :: "bool \<Rightarrow> string \<Rightarrow> nat option" where
  "sectionRe_find bol [] = None"
| "sectionRe_find bol (c # cs) =
     (if bol \<and> prefix ''##'' (c # cs) then Some 0
      else map_option Suc (sectionRe_find (c = CHR 0x0A) cs))"

definition sectionRe_FindStringIndex :: "string \<Rightarrow> (int \<times> int) option" where
  "sectionRe_FindStringIndex t =
     map_option (\<lambda>p. (int p, int p + 2)) (sectionRe_find True t)"

definition findSectionEnd :: "string \<Rightarrow> string \<Rightarrow> int option" where
  "findSectionEnd h s =
     (let start = Index s (''## '' @ h) in
      if start = - 1 then Some start
      else do {
        t \<leftarrow> slice s (start + 2) (int (length s));
        (case sectionRe_FindStringIndex t of
           None \<Rightarrow> Some (int (length s))
         | Some nextSection \<Rightarrow> Some (start + 2 + fst nextSection))
      })"

text \<open>
  \<^verbatim>\<open>sectionNameRe = (?m:^## [^\n]+)\<close>. A match begins at the start of a line with
  \<^verbatim>\<open>## \<close> and at least one more byte that is not a newline, and runs to the end of
  that line. \<^verbatim>\<open>ReplaceAllStringFunc\<close> replaces every match, left to right, by what the
  callback returns for it; the callback here can fail, and its failure is passed on.
\<close>

definition sectionNameRe_match :: "string \<Rightarrow> string option" where
  "sectionNameRe_match t =
     (if prefix ''## '' t \<and> drop 3 t \<noteq> [] \<and> hd (drop 3 t) \<noteq> CHR 0x0A
      then Some (take 3 t @ takeWhile (\<lambda>c. c \<noteq> CHR 0x0A) (drop 3 t))
      else None)"

lemma sectionNameRe_match_length:
  "sectionNameRe_match t = Some m \<Longrightarrow> 4 \<le> length m \<and> length m \<le> length t"
  by (cases "drop 3 t")
     (auto simp: sectionNameRe_match_def prefix_def split: if_splits
           intro: le_trans[OF length_takeWhile_le])

function sectionNameRe_replace ::
  "(string \<Rightarrow> string option) \<Rightarrow> bool \<Rightarrow> string \<Rightarrow> string option" where
  "sectionNameRe_replace f bol [] = Some []"
| "sectionNameRe_replace f bol (c # cs) =
     (case (if bol then sectionNameRe_match (c # cs) else None) of
        Some m \<Rightarrow>
          (case f m of
             None \<Rightarrow> None
           | Some m' \<Rightarrow>
               map_option (\<lambda>rest. m' @ rest)
                 (sectionNameRe_replace f False (drop (length m) (c # cs))))
      | None \<Rightarrow> map_option (\<lambda>rest. c # rest) (sectionNameRe_replace f (c = CHR 0x0A) cs))"
  by pat_completeness auto

termination
  apply (relation "measure (\<lambda>(f, bol, t). length t)")
  apply simp
  apply (auto split: if_splits dest!: sectionNameRe_match_length)
  done

declare sectionNameRe_replace.simps [simp del]

definition sectionNameRe_ReplaceAllStringFunc ::
  "string \<Rightarrow> (string \<Rightarrow> string option) \<Rightarrow> string option" where
  "sectionNameRe_ReplaceAllStringFunc s f = sectionNameRe_replace f True s"

text \<open>
  \<^verbatim>\<open>strings.ToLower\<close>. On a string of ASCII bytes it maps \<^verbatim>\<open>A\<close>..\<^verbatim>\<open>Z\<close> to \<^verbatim>\<open>a\<close>..\<^verbatim>\<open>z\<close>.
  On any other string it maps \<^verbatim>\<open>unicode.ToLower\<close> over the runes; the case tables of
  Unicode are not part of this repository, so that mapping is the parameter \<open>mapLower\<close>.
\<close>

definition asciiLower :: "byte \<Rightarrow> byte" where
  "asciiLower c =
     (if 0x41 \<le> (of_char c :: nat) \<and> (of_char c :: nat) \<le> 0x5A
      then char_of ((of_char c :: nat) + 0x20) else c)"

definition ToLower :: "(string \<Rightarrow> string) \<Rightarrow> string \<Rightarrow> string" where
  "ToLower mapLower s =
     (if list_all (\<lambda>c. (of_char c :: nat) < 0x80) s then map asciiLower s else mapLower s)"

subsection \<open>The two steps after markdownify\<close>

text \<open>\<^verbatim>\<open>s[:newLoc] + options + s[newLoc:]\<close>, which the source writes four times.\<close>

definition insertAt :: "string \<Rightarrow> int \<Rightarrow> string \<Rightarrow> string option" where
  "insertAt s newLoc options =
     do {
       a \<leftarrow> slice s 0 newLoc;
       b \<leftarrow> slice s newLoc (int (length s));
       Some (a @ options @ b)
     }"

text \<open>Lines 81 to 100 of \<^verbatim>\<open>printer.go\<close>: the OPTIONS section is moved.\<close>

definition relocateOptions :: "string \<Rightarrow> string option" where
  "relocateOptions s =
     (let optLoc = Index s ''## OPTIONS'' in
      if optLoc \<noteq> - 1 then
        do {
          optEnd \<leftarrow> findSectionEnd ''OPTIONS'' s;
          if optEnd \<noteq> - 1 then
            do {
              options \<leftarrow> slice s optLoc optEnd;
              a \<leftarrow> slice s 0 optLoc;
              b \<leftarrow> slice s optEnd (int (length s));
              let s = a @ b;
              newLoc \<leftarrow> findSectionEnd ''POSITIONAL ARGUMENTS'' s;
              if newLoc \<noteq> - 1 then insertAt s newLoc options
              else do {
                newLoc \<leftarrow> findSectionEnd ''Description'' s;
                if newLoc \<noteq> - 1 then insertAt s newLoc options
                else do {
                  newLoc \<leftarrow> findSectionEnd ''USAGE'' s;
                  if newLoc \<noteq> - 1 then insertAt s newLoc options
                  else do {
                    newLoc \<leftarrow> findSectionEnd ''NAME'' s;
                    if newLoc \<noteq> - 1 then insertAt s newLoc options
                    else Some (s @ options)
                  }
                }
              }
            }
          else Some s
        }
      else Some s)"

text \<open>Lines 102 to 107: the callback given to \<^verbatim>\<open>ReplaceAllStringFunc\<close>, and the step.\<close>

definition capFirst :: "(string \<Rightarrow> string) \<Rightarrow> string \<Rightarrow> string option" where
  "capFirst mapLower s =
     do {
       a \<leftarrow> slice s 0 4;
       b \<leftarrow> slice s 4 (int (length s));
       Some (a @ ToLower mapLower b)
     }"

text \<open>
  \<^verbatim>\<open>helpPreprocessor\<close> on the text that \<^verbatim>\<open>cli.HelpPrinterCustom\<close> wrote into the buffer.
  The template expansion is outside this repository, so its output \<open>text\<close> is the input
  here; the writer argument of the source is not used by it.
\<close>

definition helpPreprocessor :: "(string \<Rightarrow> string) \<Rightarrow> string \<Rightarrow> bool \<Rightarrow> string option" where
  "helpPreprocessor mapLower text capOnlyFirst =
     do {
       let s = markdownify (NewBuffer text);
       s \<leftarrow> relocateOptions s;
       s \<leftarrow> (if capOnlyFirst
             then sectionNameRe_ReplaceAllStringFunc s (capFirst mapLower)
             else Some s);
       Some s
     }"

section \<open>Notions used in the statements\<close>

text \<open>A plain byte is one the loop has no case for: it is copied by the default case.\<close>

definition plain :: "byte \<Rightarrow> bool" where
  "plain b = (b \<noteq> CHR ''<'' \<and> b \<noteq> CHR ''>'' \<and> b \<noteq> CHR 0x27 \<and> b \<noteq> CHR ''*'' \<and> b \<noteq> escapeByte)"

text \<open>
  The escape rule told on the input alone. \<open>backslashesBefore xs i\<close> is the length of the
  run of backslashes that ends right before position \<open>i\<close>; the byte at \<open>i\<close> is escaped when
  that run is odd. \<open>emit inCode xs i\<close> is what the byte at position \<open>i\<close> contributes to the
  output: a bracket becomes a backtick when it is outside a code block and not escaped,
  a backslash is emitted only when it is itself escaped (the second of a pair), every
  other byte is copied. \<open>render\<close> puts the contributions together.
\<close>

definition backslashesBefore :: "string \<Rightarrow> nat \<Rightarrow> nat" where
  "backslashesBefore xs i = length (takeWhile (\<lambda>c. c = escapeByte) (rev (take i xs)))"

definition escaped :: "string \<Rightarrow> nat \<Rightarrow> bool" where
  "escaped xs i = odd (backslashesBefore xs i)"

definition emit :: "bool \<Rightarrow> string \<Rightarrow> nat \<Rightarrow> string" where
  "emit inCode xs i =
     (let b = xs ! i in
      if b = CHR ''<'' \<or> b = CHR ''>'' then
        (if \<not> inCode \<and> \<not> escaped xs i then [CHR 0x60] else [b])
      else if b = escapeByte then (if escaped xs i then [escapeByte] else [])
      else [b])"

definition render :: "bool \<Rightarrow> string \<Rightarrow> string" where
  "render inCode xs = concat (map (emit inCode xs) [0..<length xs])"

text \<open>
  A document as lines: \<open>splitLines\<close> cuts at every newline, \<open>joinLines\<close> puts the
  newlines back. A header line is a line that \<^verbatim>\<open>sectionNameRe\<close> matches: \<^verbatim>\<open>## \<close> and a
  title that is not empty. \<open>capLine\<close> is what the capitalisation mode makes of one line.
\<close>

fun splitLines :: "string \<Rightarrow> string list" where
  "splitLines [] = [[]]"
| "splitLines (c # cs) =
     (if c = CHR 0x0A then [] # splitLines cs
      else (let ls = splitLines cs in (c # hd ls) # tl ls))"




text \<open>
  Sections told on positions. \<open>firstOccurrence pat s\<close> is the first position at which
  \<open>pat\<close> occurs in \<open>s\<close>. \<open>header h\<close> is the header text of the section titled \<open>h\<close>.
  \<open>headerLineAt bol t p\<close> says that position \<open>p\<close> of \<open>t\<close> begins a line and that the line
  begins with \<^verbatim>\<open>##\<close>; position \<open>0\<close> begins a line when \<open>bol\<close> holds. The extent of
  section \<open>h\<close> runs from the first occurrence of its header to \<open>sectionExtentEnd h s\<close>: the
  first later position that begins a line beginning with \<^verbatim>\<open>##\<close>, or the end of the
  document. \<open>noHeaderLines s\<close> says that no line of \<open>s\<close> begins with \<^verbatim>\<open>##\<close>.
\<close>

definition firstOccurrence :: "string \<Rightarrow> string \<Rightarrow> nat option" where
  "firstOccurrence pat s = find (\<lambda>i. prefix pat (drop i s)) [0..<Suc (length s)]"

definition headerLineAt :: "bool \<Rightarrow> string \<Rightarrow> nat \<Rightarrow> bool" where
  "headerLineAt bol t p =
     (prefix ''##'' (drop p t) \<and> (if p = 0 then bol else t ! (p - 1) = CHR 0x0A))"

definition header :: "string \<Rightarrow> string" where
  "header h = ''## '' @ h"

definition sectionExtentEnd :: "string \<Rightarrow> string \<Rightarrow> nat option" where
  "sectionExtentEnd h s =
     (case firstOccurrence (header h) s of
        None \<Rightarrow> None
      | Some start \<Rightarrow>
          Some (case find (headerLineAt True s) [start + 3..<length s] of
                  None \<Rightarrow> length s
                | Some p \<Rightarrow> p))"

definition noHeaderLines :: "string \<Rightarrow> bool" where
  "noHeaderLines s = list_all (\<lambda>p. \<not> headerLineAt True s p) [0..<length s]"

text \<open>
  The relocation told on positions. The OPTIONS section is cut out from its header to
  the end of its extent; among the four target sections, in the order of priority, the
  first whose header occurs in the remaining document is chosen, and the span is put
  back at the end of the extent that section has in the remaining document; when none
  of the four occurs there, the span is appended.
\<close>

definition targets :: "string list" where
  "targets = [''POSITIONAL ARGUMENTS'', ''Description'', ''USAGE'', ''NAME'']"

definition firstTarget :: "string \<Rightarrow> string option" where
  "firstTarget s = find (\<lambda>h. firstOccurrence (header h) s \<noteq> None) targets"

definition relocated :: "string \<Rightarrow> string" where
  "relocated s =
     (case firstOccurrence ''## OPTIONS'' s of
        None \<Rightarrow> s
      | Some optLoc \<Rightarrow>
          (case sectionExtentEnd ''OPTIONS'' s of
             None \<Rightarrow> s
           | Some optEnd \<Rightarrow>
               (let span = take (optEnd - optLoc) (drop optLoc s);
                    rest = take optLoc s @ drop optEnd s
                in case firstTarget rest of
                     None \<Rightarrow> rest @ span
                   | Some h \<Rightarrow>
                       (case sectionExtentEnd h rest of
                          None \<Rightarrow> rest @ span
                        | Some p \<Rightarrow> take p rest @ span @ drop p rest))))"

text \<open>
  The lookback variable after the loop has read all of \<open>xs\<close>, starting with lookback
  \<open>lastb\<close>: the last byte read, except that it is the zero byte after a backslash that
  was itself escaped (the second of a collapsed pair).
\<close>

definition lookbackAfter :: "byte \<Rightarrow> string \<Rightarrow> byte" where
  "lookbackAfter lastb xs =
     (if xs = [] then lastb
      else if last xs = escapeByte \<and> escaped xs (length xs - 1) then CHR 0x00
      else last xs)"

text \<open>A writer is well formed when its read offset lies within its contents; the
  writer of \<^verbatim>\<open>markdownify\<close> is never read, so its offset stays zero.\<close>

definition wfw :: "Buffer \<Rightarrow> bool" where
  "wfw w = (off w \<le> length (buf w))"

section \<open>The loop computes the list scanner\<close>

lemma drop_eq_Cons_iff:
  "drop n xs = y # ys \<longleftrightarrow> n < length xs \<and> xs ! n = y \<and> drop (Suc n) xs = ys"
  by (metis Cons_nth_drop_Suc drop_eq_Nil list.distinct(1) list.inject not_le)

lemma ReadByte_Nil:
  "String r = [] \<Longrightarrow> ReadByte r = ((CHR 0x00, Some EOF), Reset r)"
  by (simp add: ReadByte_def String_def empty_def)

lemma String_Reset [simp]: "String (Reset r) = []"
  by (simp add: String_def Reset_def)

lemma lastRead_Reset [simp]: "lastRead (Reset r) = opInvalid"
  by (simp add: Reset_def)

lemma ReadByte_Cons:
  "String r = b # xs \<Longrightarrow>
     ReadByte r = ((b, None), r\<lparr>off := Suc (off r), lastRead := opRead\<rparr>)"
  by (simp add: ReadByte_def String_def empty_def drop_eq_Cons_iff)

lemma String_advance [simp]:
  "String r = b # xs \<Longrightarrow> String (r\<lparr>off := Suc (off r), lastRead := lr\<rparr>) = xs"
  by (simp add: String_def drop_eq_Cons_iff)

lemma UnreadByte_invalid:
  "lastRead r = opInvalid \<Longrightarrow> UnreadByte r = (Some ErrUnreadByte, r)"
  by (simp add: UnreadByte_def)

lemma UnreadByte_after_read:
  "UnreadByte (r\<lparr>off := Suc n, lastRead := opRead\<rparr>) = (None, r\<lparr>off := n, lastRead := opInvalid\<rparr>)"
  by (simp add: UnreadByte_def opRead_def opInvalid_def)

lemma ReadRune_Nil:
  "String r = [] \<Longrightarrow> ReadRune r = ((0, 0, Some EOF), Reset r)"
  by (simp add: ReadRune_def String_def empty_def)

lemma ReadRune_UnreadRune:
  assumes "String r = x # xs"
  shows "\<exists>k r4 e r5. ReadRune r = ((fst (DecodeRune (x # xs)), k, None), r4) \<and>
           UnreadRune r4 = (e, r5) \<and> String r5 = x # xs"
proof -
  from assms have ne: "\<not> empty r" and dr: "drop (off r) (buf r) = x # xs"
    and hd: "buf r ! off r = x"
    by (auto simp: String_def empty_def drop_eq_Cons_iff)
  show ?thesis
  proof (cases "(of_char x :: nat) < 0x80")
    case True
    then have "DecodeRune (x # xs) = (of_char x, 1)"
      by (simp add: DecodeRune_def)
    with True ne hd dr show ?thesis
      by (simp add: ReadRune_def UnreadRune_def opInvalid_def String_def)
  next
    case False
    obtain n k where d: "DecodeRune (x # xs) = (n, k)" by (cases "DecodeRune (x # xs)")
    with False ne hd dr show ?thesis
      by (simp add: ReadRune_def UnreadRune_def opInvalid_def String_def)
  qed
qed


lemma wfw_WriteByte [simp]: "wfw w \<Longrightarrow> wfw (WriteByte w c)"
  by (simp add: wfw_def WriteByte_def)

lemma wfw_WriteString [simp]: "wfw w \<Longrightarrow> wfw (WriteString w s)"
  by (simp add: wfw_def WriteString_def)

lemma String_WriteByte [simp]: "wfw w \<Longrightarrow> String (WriteByte w c) = String w @ [c]"
  by (simp add: wfw_def WriteByte_def String_def)

lemma String_WriteString [simp]: "wfw w \<Longrightarrow> String (WriteString w s) = String w @ s"
  by (simp add: wfw_def WriteString_def String_def)

lemma UnreadByte_WriteByte [simp]:
  "UnreadByte (WriteByte w c) = (Some ErrUnreadByte, WriteByte w c)"
  by (simp add: UnreadByte_def WriteByte_def)

lemma wfw_NewBuffer [simp]: "wfw (NewBuffer s)"
  by (simp add: wfw_def NewBuffer_def)

lemma String_NewBuffer [simp]: "String (NewBuffer s) = s"
  by (simp add: String_def NewBuffer_def)

lemma iteration_Nil: "String r = [] \<Longrightarrow> iteration r w l c = None"
  by (simp add: iteration_def ReadByte_Nil)

lemma iteration_bracket:
  assumes "String r = b # xs" and "b = CHR ''<'' \<or> b = CHR ''>''"
  shows "iteration r w l c =
    Some (r\<lparr>off := Suc (off r), lastRead := opRead\<rparr>,
          WriteByte w (if l \<noteq> escapeByte \<and> \<not> c then CHR 0x60 else b), b, c)"
  using assms by (auto simp: iteration_def ReadByte_Cons escapeByte_def)

lemma iteration_escape:
  assumes "String r = escapeByte # xs"
  shows "iteration r w l c =
    Some (r\<lparr>off := Suc (off r), lastRead := opRead\<rparr>,
          (if l = escapeByte then WriteByte w escapeByte else w),
          (if l = escapeByte then CHR 0x00 else escapeByte), c)"
  using assms by (simp add: iteration_def ReadByte_Cons escapeByte_def)

lemma iteration_default:
  assumes "String r = b # xs" and "b \<noteq> CHR ''<''" "b \<noteq> CHR ''>''" "b \<noteq> CHR 0x27"
    "b \<noteq> escapeByte" "b \<noteq> CHR ''*'' \<or> \<not> c"
  shows "iteration r w l c =
    Some (r\<lparr>off := Suc (off r), lastRead := opRead\<rparr>, WriteByte w b, b, c)"
  using assms by (auto simp: iteration_def ReadByte_Cons escapeByte_def)

lemma iteration_star_end:
  assumes "String r = [CHR ''*'']"
  shows "iteration r w l True = Some (Reset (r\<lparr>off := Suc (off r), lastRead := opRead\<rparr>), WriteByte w (CHR ''*''), CHR ''*'', True)"
  using assms by (simp add: iteration_def ReadByte_Cons ReadByte_Nil)

lemma iteration_star:
  assumes "String r = CHR ''*'' # b1 # ys"
  shows "iteration r w l True =
    Some (r\<lparr>off := Suc (Suc (off r)), lastRead := opRead\<rparr>,
          (if b1 \<noteq> CHR ''*'' then WriteByte w (CHR ''*'') else w), CHR ''*'', True)"
proof -
  let ?r1 = "r\<lparr>off := Suc (off r), lastRead := opRead\<rparr>"
  have s1: "String ?r1 = b1 # ys" using assms by simp
  have "ReadByte ?r1 = ((b1, None), ?r1\<lparr>off := Suc (off ?r1), lastRead := opRead\<rparr>)"
    by (rule ReadByte_Cons[OF s1])
  then show ?thesis using assms
    by (simp add: iteration_def ReadByte_Cons)
qed


lemma String_advance2:
  assumes "String r = a # b # xs"
  shows "String (r\<lparr>off := Suc (Suc (off r)), lastRead := lr\<rparr>) = xs"
  using assms by (simp add: String_def drop_eq_Cons_iff)

lemma String_advance3:
  assumes "String r = a # b # c # xs"
  shows "String (r\<lparr>off := Suc (Suc (Suc (off r))), lastRead := lr\<rparr>) = xs"
  using assms by (simp add: String_def drop_eq_Cons_iff)

lemma ReadByte2:
  assumes "String r = a # b # xs"
  shows "ReadByte (r\<lparr>off := Suc (off r), lastRead := lr\<rparr>)
           = ((b, None), r\<lparr>off := Suc (Suc (off r)), lastRead := opRead\<rparr>)"
proof -
  have "String (r\<lparr>off := Suc (off r), lastRead := lr\<rparr>) = b # xs"
    using assms by simp
  from ReadByte_Cons[OF this] show ?thesis by simp
qed

lemma ReadByte3:
  assumes "String r = a # b # c # xs"
  shows "ReadByte (r\<lparr>off := Suc (Suc (off r)), lastRead := lr\<rparr>)
           = ((c, None), r\<lparr>off := Suc (Suc (Suc (off r))), lastRead := opRead\<rparr>)"
proof -
  have "String (r\<lparr>off := Suc (Suc (off r)), lastRead := lr\<rparr>) = c # xs"
    using assms by (rule String_advance2)
  from ReadByte_Cons[OF this] show ?thesis by simp
qed

lemma iteration_quote_short:
  assumes "String r = CHR 0x27 # xs" and "length xs < 2"
  shows "\<exists>r'. iteration r w l c = Some (r', WriteByte w (CHR 0x27), CHR 0x27, c) \<and> String r' = []"
proof (cases xs)
  case Nil
  let ?r1 = "r\<lparr>off := Suc (off r), lastRead := opRead\<rparr>"
  have s1: "String ?r1 = []" using assms Nil by simp
  show ?thesis using assms Nil
    by (simp add: iteration_def ReadByte_Cons ReadByte_Nil[OF s1] ReadByte_Nil UnreadByte_invalid)
next
  case (Cons b1 ys)
  with assms have ys: "ys = []" by simp
  let ?r2 = "r\<lparr>off := Suc (Suc (off r)), lastRead := opRead\<rparr>"
  have s: "String r = [CHR 0x27, b1]" using assms Cons ys by simp
  have s2: "String ?r2 = []" using s by (rule String_advance2)
  show ?thesis using s
    by (simp add: iteration_def ReadByte_Cons ReadByte2[OF s] ReadByte_Nil[OF s2] UnreadByte_invalid)
qed

lemma iteration_quote_single:
  assumes "String r = CHR 0x27 # b1 # b2 # ys" and "\<not> (b1 = CHR 0x27 \<and> b2 = CHR 0x27)"
  shows "\<exists>r'. iteration r w l c = Some (r', WriteByte w (CHR 0x27), CHR 0x27, c) \<and> String r' = b2 # ys"
proof -
  let ?r5 = "r\<lparr>off := Suc (Suc (off r)), lastRead := opInvalid\<rparr>"
  have u1: "UnreadByte (r\<lparr>off := Suc (Suc (Suc (off r))), lastRead := opRead\<rparr>) = (None, ?r5)"
    using UnreadByte_after_read[where r = r and n = "Suc (Suc (off r))"] by simp
  have u2: "UnreadByte ?r5 = (Some ErrUnreadByte, ?r5)"
    by (simp add: UnreadByte_invalid)
  have "iteration r w l c = Some (?r5, WriteByte w (CHR 0x27), CHR 0x27, c)"
    using assms
    by (auto simp: iteration_def ReadByte_Cons ReadByte2[OF assms(1)] ReadByte3[OF assms(1)] u1 u2)
  moreover have "String ?r5 = b2 # ys"
    using assms(1) by (simp add: String_def drop_eq_Cons_iff)
  ultimately show ?thesis by blast
qed

lemma iteration_quote_triple:
  assumes "String r = CHR 0x27 # CHR 0x27 # CHR 0x27 # ys" and "wfw w"
  shows "\<exists>r' w'. iteration r w l c = Some (r', w', CHR 0x27, \<not> c) \<and> String r' = ys \<and> wfw w' \<and>
           String w' = String w @ [CHR 0x60, CHR 0x60, CHR 0x60]
                        @ (if \<not> c \<and> spaceAhead ys then ''shell'' else [])"
proof -
  let ?r3 = "r\<lparr>off := Suc (Suc (Suc (off r))), lastRead := opRead\<rparr>"
  let ?w1 = "WriteString w [CHR 0x60, CHR 0x60, CHR 0x60]"
  have s3: "String ?r3 = ys" using assms(1) by (rule String_advance3)
  have it: "iteration r w l c =
      (let (w2, r5) =
                  (if \<not> c then
                     (let ((n, _, err), r4) = ReadRune ?r3 in
                      if err = None then
                        (let w2 = (if IsSpace n then WriteString ?w1 ''shell'' else ?w1);
                             (_, r5) = UnreadRune r4
                         in (w2, r5))
                      else (?w1, r4))
                   else (?w1, ?r3))
            in Some (r5, w2, CHR 0x27, \<not> c))"
    using assms(1)
    by (simp add: iteration_def ReadByte_Cons ReadByte2[OF assms(1)] ReadByte3[OF assms(1)] Let_def)
  show ?thesis
  proof (cases c)
    case True
    with it s3 assms(2) show ?thesis by simp
  next
    case False
    show ?thesis
    proof (cases ys)
      case Nil
      with s3 have "ReadRune ?r3 = ((0, 0, Some EOF), Reset ?r3)" by (simp add: ReadRune_Nil)
      with it False Nil assms(2) show ?thesis by (simp add: spaceAhead_def)
    next
      case (Cons y ys')
      with s3 have "String ?r3 = y # ys'" by simp
      from ReadRune_UnreadRune[OF this] obtain k r4 e r5 where
        rr: "ReadRune ?r3 = ((fst (DecodeRune (y # ys')), k, None), r4)"
        and ur: "UnreadRune r4 = (e, r5)" and s5: "String r5 = y # ys'" by blast
      with it False Cons assms(2) show ?thesis by (simp add: spaceAhead_def)
    qed
  qed
qed


lemma iteration_Cons:
  assumes "String r = b # xs" and "wfw w"
  shows "\<exists>r' w' l' c'. iteration r w l c = Some (r', w', l', c') \<and> wfw w' \<and>
           String w @ scan l c (b # xs) = String w' @ scan l' c' (String r')"
proof -
  consider (bracket) "b = CHR ''<'' \<or> b = CHR ''>''"
    | (quote) "b = CHR 0x27"
    | (star) "b = CHR ''*''" "c"
    | (escape) "b = escapeByte"
    | (default) "b \<noteq> CHR ''<''" "b \<noteq> CHR ''>''" "b \<noteq> CHR 0x27" "b \<noteq> escapeByte"
        "b \<noteq> CHR ''*'' \<or> \<not> c"
    by blast
  then show ?thesis
  proof cases
    case bracket
    from iteration_bracket[OF assms(1) bracket, of w l c] assms bracket show ?thesis
      by (auto simp: escapeByte_def)
  next
    case quote
    show ?thesis
    proof (cases "length xs < 2")
      case True
      from iteration_quote_short[OF assms(1)[unfolded quote] True, of w l c]
      obtain r' where "iteration r w l c = Some (r', WriteByte w (CHR 0x27), CHR 0x27, c)"
        "String r' = []" by blast
      moreover from True have "scan l c (CHR 0x27 # xs) = [CHR 0x27]"
        by (cases xs; cases "tl xs") auto
      ultimately show ?thesis using assms(2) quote by simp
    next
      case False
      then obtain b1 b2 ys where xs: "xs = b1 # b2 # ys"
        by (cases xs; cases "tl xs") auto
      show ?thesis
      proof (cases "b1 = CHR 0x27 \<and> b2 = CHR 0x27")
        case True
        with assms(1) quote xs have s: "String r = CHR 0x27 # CHR 0x27 # CHR 0x27 # ys" by simp
        from iteration_quote_triple[OF s assms(2), of l c] obtain r' w' where
          "iteration r w l c = Some (r', w', CHR 0x27, \<not> c)" "String r' = ys" "wfw w'"
          "String w' = String w @ [CHR 0x60, CHR 0x60, CHR 0x60]
                        @ (if \<not> c \<and> spaceAhead ys then ''shell'' else [])" by blast
        then show ?thesis using quote xs True by simp
      next
        case False
        from assms(1) quote xs have s: "String r = CHR 0x27 # b1 # b2 # ys" by simp
        from iteration_quote_single[OF s False, of w l c] obtain r' where
          "iteration r w l c = Some (r', WriteByte w (CHR 0x27), CHR 0x27, c)"
          "String r' = b2 # ys" by blast
        then show ?thesis using quote xs False assms(2) by auto
      qed
    qed
  next
    case star
    show ?thesis
    proof (cases xs)
      case Nil
      with assms(1) star have "String r = [CHR ''*'']" by simp
      from iteration_star_end[OF this, of w l] show ?thesis using star Nil assms(2)
        by (auto simp: escapeByte_def)
    next
      case (Cons b1 ys)
      with assms(1) star have s: "String r = CHR ''*'' # b1 # ys" by simp
      from iteration_star[OF s, of w l] show ?thesis using star Cons assms(2) s
        by (auto simp: escapeByte_def String_advance2[OF s])
    qed
  next
    case escape
    with assms(1) have s: "String r = escapeByte # xs" by simp
    from iteration_escape[OF s, of w l c] show ?thesis using escape assms s
      by (auto simp: escapeByte_def)
  next
    case default
    from iteration_default[OF assms(1) default, of w l] show ?thesis using default assms
      by auto
  qed
qed

lemma loop_scan:
  "wfw w \<Longrightarrow> markdownify_loop r w l c = String w @ scan l c (String r)"
proof (induction r w l c rule: markdownify_loop.induct)
  case (1 r w l c)
  show ?case
  proof (cases "String r")
    case Nil
    then show ?thesis
      by (subst markdownify_loop.simps) (simp add: iteration_Nil)
  next
    case (Cons b xs)
    from iteration_Cons[OF Cons "1.prems", of l c] obtain r' w' l' c' where
      it: "iteration r w l c = Some (r', w', l', c')" and w': "wfw w'"
      and eq: "String w @ scan l c (b # xs) = String w' @ scan l' c' (String r')" by blast
    have "markdownify_loop r w l c = markdownify_loop r' w' l' c'"
      by (subst markdownify_loop.simps) (simp add: it)
    also have "\<dots> = String w' @ scan l' c' (String r')"
      using "1.IH"[OF it refl refl refl w'] .
    finally show ?thesis using eq Cons by simp
  qed
qed

lemma markdownify_scan: "markdownify (NewBuffer xs) = scan (CHR 0x00) False xs"
  by (simp add: markdownify_def loop_scan)

lemma loop_NewBuffer:
  "markdownify_loop (NewBuffer xs) (NewBuffer out) l c = out @ scan l c xs"
  by (simp add: loop_scan)

lemma scan_lookback:
  "(l = escapeByte \<longleftrightarrow> l' = escapeByte) \<Longrightarrow> scan l c xs = scan l' c xs"
  by (cases xs) auto

subsection \<open>Plain bytes and whitespace runes\<close>

lemma plain_high: "0x80 \<le> (of_char b :: nat) \<Longrightarrow> plain b"
  by (auto simp: plain_def escapeByte_def)

lemma plain_space: "(of_char b :: nat) \<in> {0x09, 0x0A, 0x0B, 0x0C, 0x0D, 0x20} \<Longrightarrow> plain b"
  by (auto simp: plain_def escapeByte_def)

lemma scan_plain_Cons: "plain b \<Longrightarrow> scan l c (b # xs) = b # scan b c xs"
  by (simp add: plain_def)

lemma scan_plain:
  "list_all plain ys \<Longrightarrow> scan l c (ys @ rest) = ys @ scan (if ys = [] then l else last ys) c rest"
  by (induction ys arbitrary: l) (simp_all add: scan_plain_Cons del: scan.simps)

lemma DecodeRune_1:
  "(of_char c0 :: nat) < 0x80 \<Longrightarrow> DecodeRune (c0 # ts) = (of_char c0, 1)"
  by (simp add: DecodeRune_def)

lemma DecodeRune_size:
  "DecodeRune (c0 # ts) = (n, k) \<Longrightarrow> 0 < k \<and> k \<le> 4"
  by (auto simp: DecodeRune_def Let_def split: if_splits)

lemma DecodeRune_multi:
  assumes "DecodeRune (c0 # ts) = (n, k)" and "1 < k"
  shows "k \<le> length (c0 # ts) \<and> list_all (\<lambda>b. 0x80 \<le> (of_char b :: nat)) (take k (c0 # ts))"
proof -
  consider "ts = []" | c1 where "ts = [c1]" | c1 c2 where "ts = [c1, c2]"
    | c1 c2 c3 ts' where "ts = c1 # c2 # c3 # ts'"
    by (cases ts; cases "tl ts"; cases "tl (tl ts)") auto
  then show ?thesis
  proof cases
    case 1 with assms show ?thesis by (auto simp: DecodeRune_def Let_def split: if_splits)
  next
    case 2 with assms show ?thesis by (auto simp: DecodeRune_def Let_def split: if_splits)
  next
    case 3 with assms show ?thesis by (auto simp: DecodeRune_def Let_def split: if_splits)
  next
    case 4 with assms show ?thesis by (auto simp: DecodeRune_def Let_def split: if_splits)
  qed
qed

lemma DecodeRune_error: "DecodeRune (c0 # ts) = (n, 1) \<Longrightarrow> n = of_char c0 \<and> n < 0x80 \<or> n = RuneError"
  by (auto simp: DecodeRune_def Let_def split: if_splits)

lemma space_bytes_plain:
  assumes "spaceAhead rest"
  shows "0 < snd (DecodeRune rest) \<and> snd (DecodeRune rest) \<le> length rest \<and>
         list_all plain (take (snd (DecodeRune rest)) rest)"
proof -
  from assms obtain c0 ts where rest: "rest = c0 # ts" by (cases rest) (auto simp: spaceAhead_def)
  obtain n k where d: "DecodeRune (c0 # ts) = (n, k)" by (cases "DecodeRune (c0 # ts)")
  from assms rest d have sp: "IsSpace n" by (simp add: spaceAhead_def)
  from DecodeRune_size[OF d] have k: "0 < k" "k \<le> 4" by auto
  show ?thesis
  proof (cases "k = 1")
    case True
    with d DecodeRune_error have "n = of_char c0 \<and> n < 0x80 \<or> n = RuneError" by blast
    with sp have "(of_char c0 :: nat) \<in> {0x09, 0x0A, 0x0B, 0x0C, 0x0D, 0x20}"
      by (auto simp: IsSpace_def RuneError_def split: if_splits)
    then have "plain c0" by (rule plain_space)
    with True rest d show ?thesis by simp
  next
    case False
    with k have "1 < k" by simp
    from DecodeRune_multi[OF d this] have "k \<le> length (c0 # ts)"
      and "list_all (\<lambda>b. 0x80 \<le> (of_char b :: nat)) (take k (c0 # ts))" by auto
    then have "list_all plain (take k (c0 # ts))"
      by (auto simp: list_all_iff intro: plain_high)
    with \<open>k \<le> length (c0 # ts)\<close> k rest d show ?thesis by simp
  qed
qed


subsection \<open>The escape rule on positions\<close>

lemma backslashesBefore_snoc:
  "backslashesBefore (pre @ b # ys) (Suc (length pre))
     = (if b = escapeByte then Suc (backslashesBefore (pre @ b # ys) (length pre)) else 0)"
  by (simp add: backslashesBefore_def take_Suc_conv_app_nth)

lemma backslashesBefore_prefix:
  "backslashesBefore (pre @ xs) (length pre) = length (takeWhile (\<lambda>c. c = escapeByte) (rev pre))"
  by (simp add: backslashesBefore_def)

lemma scan_stretch_aux:
  assumes "CHR 0x27 \<notin> set xs" and "c \<longrightarrow> CHR ''*'' \<notin> set xs"
    and "l = escapeByte \<longleftrightarrow> escaped (pre @ xs) (length pre)"
  shows "scan l c (xs @ rest)
           = concat (map (emit c (pre @ xs)) [length pre..<length pre + length xs])
             @ scan (if xs = [] then l
                     else if last xs = escapeByte
                             \<and> escaped (pre @ xs) (length pre + length xs - 1)
                          then CHR 0x00 else last xs) c rest"
  using assms
proof (induction xs arbitrary: l pre)
  case Nil
  then show ?case by simp
next
  case (Cons b ys)
  have up: "[length pre..<length pre + length (b # ys)]
              = length pre # [length (pre @ [b])..<length (pre @ [b]) + length ys]"
    by (simp add: upt_rec)
  have nx: "escaped ((pre @ [b]) @ ys) (length (pre @ [b]))
              \<longleftrightarrow> b = escapeByte \<and> \<not> escaped (pre @ b # ys) (length pre)"
    using backslashesBefore_snoc[of pre b ys] by (simp add: escaped_def)
  have hd: "(pre @ b # ys) ! length pre = b" by simp
  let ?l' = "if b = escapeByte \<and> l = escapeByte then CHR 0x00 else b"
  have l': "?l' = escapeByte \<longleftrightarrow> escaped ((pre @ [b]) @ ys) (length (pre @ [b]))"
    using Cons.prems(3) nx by (auto simp: escapeByte_def)
  have IH: "scan ?l' c (ys @ rest)
      = concat (map (emit c ((pre @ [b]) @ ys))
                [length (pre @ [b])..<length (pre @ [b]) + length ys])
        @ scan (if ys = [] then ?l'
                else if last ys = escapeByte
                        \<and> escaped ((pre @ [b]) @ ys) (length (pre @ [b]) + length ys - 1)
                     then CHR 0x00 else last ys) c rest"
    using Cons.IH[of ?l' "pre @ [b]"] Cons.prems l' by simp
  have step: "scan l c ((b # ys) @ rest) = emit c (pre @ b # ys) (length pre) @ scan ?l' c (ys @ rest)"
    using Cons.prems by (auto simp: emit_def hd escapeByte_def)
  have fin: "(if ys = [] then ?l'
                else if last ys = escapeByte
                        \<and> escaped ((pre @ [b]) @ ys) (length (pre @ [b]) + length ys - 1)
                     then CHR 0x00 else last ys)
           = (if b # ys = [] then l
                     else if last (b # ys) = escapeByte
                             \<and> escaped (pre @ b # ys) (length pre + length (b # ys) - 1)
                          then CHR 0x00 else last (b # ys))"
    using Cons.prems(3) by (cases "ys = []") auto
  show ?case unfolding up step IH fin by (simp del: scan.simps)
qed

subsection \<open>Runs of backslashes\<close>

lemma scan_backslash_even:
  "l \<noteq> escapeByte \<Longrightarrow>
     scan l c (replicate (2 * k) escapeByte @ rest)
       = replicate k escapeByte @ scan (if k = 0 then l else CHR 0x00) c rest"
proof (induction k arbitrary: l)
  case 0
  then show ?case by simp
next
  case (Suc k)
  have z: "CHR 0x00 \<noteq> escapeByte" by (simp add: escapeByte_def)
  have "scan l c (replicate (2 * Suc k) escapeByte @ rest)
          = escapeByte # scan (CHR 0x00) c (replicate (2 * k) escapeByte @ rest)"
    using Suc.prems by (simp add: escapeByte_def)
  also have "scan (CHR 0x00) c (replicate (2 * k) escapeByte @ rest)
          = replicate k escapeByte @ scan (CHR 0x00) c rest"
    using Suc.IH[OF z] by simp
  finally show ?case by simp
qed

lemma scan_backslash_run:
  assumes "l \<noteq> escapeByte"
  shows "scan l c (replicate n escapeByte @ rest)
       = replicate (n div 2) escapeByte
         @ scan (if odd n then escapeByte else if n = 0 then l else CHR 0x00) c rest"
proof (cases "even n")
  case True
  then obtain k where n: "n = 2 * k" by (auto elim: evenE)
  show ?thesis unfolding n using scan_backslash_even[OF assms, of c k rest] by simp
next
  case False
  then obtain k where n: "n = 2 * k + 1" by (auto elim: oddE)
  have "replicate n escapeByte @ rest = replicate (2 * k) escapeByte @ (escapeByte # rest)"
    unfolding n by (simp add: replicate_append_same)
  then have "scan l c (replicate n escapeByte @ rest)
          = replicate k escapeByte @ scan (if k = 0 then l else CHR 0x00) c (escapeByte # rest)"
    using scan_backslash_even[OF assms, of c k "escapeByte # rest"] by simp
  also have "scan (if k = 0 then l else CHR 0x00) c (escapeByte # rest) = scan escapeByte c rest"
    using assms by (simp add: escapeByte_def)
  finally show ?thesis using n by simp
qed

section \<open>The escape transform\<close>

text \<open>
  The theorems below speak of the loop of \<^verbatim>\<open>markdownify\<close> at any of its passes:
  \<open>markdownify_loop (NewBuffer xs) (NewBuffer out) lastb inCode\<close> is what
  \<^verbatim>\<open>markdownify\<close> returns when a pass begins with \<open>xs\<close> still unread, \<open>out\<close> already
  written, and the two variables as given. \<^verbatim>\<open>markdownify\<close> itself begins with nothing
  written, the zero byte as lookback, and outside a code block.
\<close>

text \<open>
  C10. After two consecutive backslashes are collapsed into one, the lookback byte is
  cleared (it is the zero byte, not a backslash). So a \<^verbatim>\<open><\<close> or \<^verbatim>\<open>>\<close> right after the
  collapsed pair is not escaped: outside a code block the three bytes backslash,
  backslash, bracket give a backslash and a backtick.
\<close>

theorem collapsed_pair_clears_lookback:
  assumes "lastb \<noteq> escapeByte" and "b = CHR ''<'' \<or> b = CHR ''>''"
  shows "markdownify_loop (NewBuffer (escapeByte # escapeByte # rest)) (NewBuffer out) lastb inCode
           = markdownify_loop (NewBuffer rest) (NewBuffer (out @ [escapeByte])) (CHR 0x00) inCode
       \<and> markdownify_loop (NewBuffer (escapeByte # escapeByte # b # rest)) (NewBuffer out) lastb False
           = markdownify_loop (NewBuffer rest) (NewBuffer (out @ [escapeByte, CHR 0x60])) b False"
  using assms by (auto simp: loop_NewBuffer escapeByte_def)

theorem collapsed_pair_clears_lookback_witness:
  "CHR 0x00 \<noteq> escapeByte \<and>
   markdownify (NewBuffer [CHR 0x5C, CHR 0x5C, CHR ''<'']) = [CHR 0x5C, CHR 0x60]"
proof -
  have h1: "CHR 0x00 \<noteq> escapeByte" by (simp add: escapeByte_def)
  have h2: "CHR ''<'' = CHR ''<'' \<or> CHR ''<'' = CHR ''>''" by simp
  note t = collapsed_pair_clears_lookback [OF h1 h2, of "[]" "[]" False, THEN conjunct2]
  have "markdownify (NewBuffer [CHR 0x5C, CHR 0x5C, CHR ''<''])
          = markdownify_loop (NewBuffer []) (NewBuffer [CHR 0x5C, CHR 0x60]) (CHR ''<'') False"
    using t by (simp add: markdownify_def escapeByte_def)
  also have "\<dots> = [CHR 0x5C, CHR 0x60]"
    by (simp add: loop_NewBuffer)
  finally show ?thesis using h1 by simp
qed

text \<open>
  C7. A single quote that does not begin a run of three is emitted, and the source then
  calls \<^verbatim>\<open>UnreadByte\<close> twice to give back the two bytes it looked at. The buffer can
  give back one byte only: the second call fails, and the byte right after the quote
  never reaches the output. On \<^verbatim>\<open>it's ok\<close> the \<^verbatim>\<open>s\<close> is lost.
\<close>

theorem lone_quote_drops_next_byte:
  "markdownify (NewBuffer (''it'' @ [CHR 0x27] @ ''s ok'')) = ''it'' @ [CHR 0x27] @ '' ok''"
  by (simp add: markdownify_scan escapeByte_def)

text \<open>
  C8. Inside a code block an asterisk that is not followed by another one is emitted,
  and the source then calls \<^verbatim>\<open>UnreadByte\<close> on the writer instead of the reader. The byte
  it looked at is not given back and never reaches the output. Between two fences,
  \<^verbatim>\<open>a*b\<close> comes out as \<^verbatim>\<open>a*\<close>.
\<close>

theorem asterisk_in_code_drops_next_byte:
  "markdownify (NewBuffer ([CHR 0x27, CHR 0x27, CHR 0x27] @ ''a*b'' @ [CHR 0x27, CHR 0x27, CHR 0x27]))
     = [CHR 0x60, CHR 0x60, CHR 0x60] @ ''a*'' @ [CHR 0x60, CHR 0x60, CHR 0x60]"
  by (simp add: markdownify_scan escapeByte_def spaceAhead_def DecodeRune_def IsSpace_def)

text \<open>
  What a pass that begins at a fence does. Whenever a pass of the loop begins at three
  consecutive single quotes, it writes three backticks and flips \<open>inCode\<close>, whatever the
  lookback and the flag were. When the fence opens a code block (the flag was false)
  and the rune after the three quotes is whitespace, the word \<^verbatim>\<open>shell\<close> is written
  right after the backticks. The rune is given back: the next pass begins at \<open>rest\<close>,
  all of it, and the bytes of the whitespace rune are the next output after \<^verbatim>\<open>shell\<close>.
\<close>

lemma fence_toggles_code_block:
  "markdownify_loop (NewBuffer (CHR 0x27 # CHR 0x27 # CHR 0x27 # rest)) (NewBuffer out) lastb inCode
     = markdownify_loop (NewBuffer rest)
         (NewBuffer (out @ [CHR 0x60, CHR 0x60, CHR 0x60]
                       @ (if \<not> inCode \<and> spaceAhead rest then ''shell'' else [])))
         (CHR 0x27) (\<not> inCode)
   \<and> (\<not> inCode \<and> spaceAhead rest \<longrightarrow>
        prefix (out @ [CHR 0x60, CHR 0x60, CHR 0x60] @ ''shell'' @ take (snd (DecodeRune rest)) rest)
          (markdownify_loop (NewBuffer (CHR 0x27 # CHR 0x27 # CHR 0x27 # rest)) (NewBuffer out)
             lastb inCode))"
proof -
  have first: "markdownify_loop (NewBuffer (CHR 0x27 # CHR 0x27 # CHR 0x27 # rest)) (NewBuffer out) lastb inCode
     = markdownify_loop (NewBuffer rest)
         (NewBuffer (out @ [CHR 0x60, CHR 0x60, CHR 0x60]
                       @ (if \<not> inCode \<and> spaceAhead rest then ''shell'' else [])))
         (CHR 0x27) (\<not> inCode)"
    by (simp add: loop_NewBuffer escapeByte_def)
  have second: "prefix (out @ [CHR 0x60, CHR 0x60, CHR 0x60] @ ''shell'' @ take (snd (DecodeRune rest)) rest)
          (markdownify_loop (NewBuffer (CHR 0x27 # CHR 0x27 # CHR 0x27 # rest)) (NewBuffer out)
             lastb inCode)" if nc: "\<not> inCode" and sp: "spaceAhead rest"
  proof -
    let ?k = "snd (DecodeRune rest)"
    from space_bytes_plain[OF sp] have pl: "list_all plain (take ?k rest)" by simp
    have "scan (CHR 0x27) True rest = scan (CHR 0x27) True (take ?k rest @ drop ?k rest)" by simp
    also have "\<dots> = take ?k rest @ scan (if take ?k rest = [] then CHR 0x27 else last (take ?k rest)) True (drop ?k rest)"
      by (rule scan_plain[OF pl])
    finally have sc: "\<exists>t. scan (CHR 0x27) True rest = take ?k rest @ t" by blast
    then obtain t where t: "scan (CHR 0x27) True rest = take ?k rest @ t" ..
    show ?thesis unfolding first using nc sp
      by (simp add: loop_NewBuffer t prefix_def)
  qed
  from first second show ?thesis by blast
qed

lemma fence_toggles_code_block_example:
  "spaceAhead (CHR 0x0A # ''step rand'' @ [CHR 0x0A, CHR 0x27, CHR 0x27, CHR 0x27]) \<and>
   prefix ([CHR 0x60, CHR 0x60, CHR 0x60] @ ''shell'' @ [CHR 0x0A])
     (markdownify (NewBuffer ([CHR 0x27, CHR 0x27, CHR 0x27, CHR 0x0A] @ ''step rand''
                                @ [CHR 0x0A, CHR 0x27, CHR 0x27, CHR 0x27])))"
proof -
  let ?rest = "CHR 0x0A # ''step rand'' @ [CHR 0x0A, CHR 0x27, CHR 0x27, CHR 0x27]"
  have sp: "spaceAhead ?rest"
    by (simp add: spaceAhead_def DecodeRune_def IsSpace_def)
  have k: "snd (DecodeRune ?rest) = 1"
    by (simp add: DecodeRune_def)
  have "prefix ([] @ [CHR 0x60, CHR 0x60, CHR 0x60] @ ''shell'' @ take (snd (DecodeRune ?rest)) ?rest)
          (markdownify_loop (NewBuffer (CHR 0x27 # CHR 0x27 # CHR 0x27 # ?rest)) (NewBuffer [])
             (CHR 0x00) False)"
    using fence_toggles_code_block
            [where rest = ?rest and out = "[]" and lastb = "CHR 0x00" and inCode = False,
             THEN conjunct2] sp
    by blast
  then show ?thesis using sp unfolding k by (simp add: markdownify_def)
qed

text \<open>
  C3. A run of three single quotes is replaced by three backticks only when a pass of
  the loop begins at it. Inside a code block the asterisk case reads the byte after an
  asterisk and, by the slip of C8, never gives it back: when that byte is the first
  quote of the closing fence, the fence is not seen. On \<^verbatim>\<open>'''ls *''' <x>\<close> the closing
  run comes out as one quote, the code block is never left, and \<^verbatim>\<open><x>\<close> stays as it
  is.
\<close>

theorem closing_fence_lost_after_asterisk:
  "markdownify (NewBuffer ([CHR 0x27, CHR 0x27, CHR 0x27] @ ''ls *'' @ [CHR 0x27, CHR 0x27, CHR 0x27] @ '' <x>''))
     = [CHR 0x60, CHR 0x60, CHR 0x60] @ ''ls *'' @ [CHR 0x27] @ '' <x>''"
  by (simp add: markdownify_scan escapeByte_def spaceAhead_def DecodeRune_def IsSpace_def)


text \<open>
  C1, as the code has it. Take any stretch \<open>xs\<close> of the input without single quotes
  (and, inside a code block, without asterisks) at which a pass of the loop begins with
  a lookback other than a backslash, whatever the input \<open>rest\<close> after the stretch is.
  Outside a code block a \<^verbatim>\<open><\<close> or \<^verbatim>\<open>>\<close> of the stretch becomes a backtick when the run
  of backslashes right before it has even length (zero included), and is emitted
  unchanged when that run has odd length; inside a code block it is always emitted
  unchanged. The backslash that escapes a bracket is not emitted. The loop then goes on
  with \<open>rest\<close>. The claim as written makes the byte right before the bracket decide; the
  code clears its lookback after a doubled backslash, so it is the parity of the run
  that decides.
\<close>

theorem brackets_by_backslash_parity:
  assumes "CHR 0x27 \<notin> set xs" and "inCode \<longrightarrow> CHR ''*'' \<notin> set xs"
    and "lastb \<noteq> escapeByte"
  shows "markdownify_loop (NewBuffer (xs @ rest)) (NewBuffer out) lastb inCode
           = markdownify_loop (NewBuffer rest) (NewBuffer (out @ render inCode xs))
               (lookbackAfter lastb xs) inCode"
  using scan_stretch_aux[of xs inCode lastb "[]" rest] assms
  by (simp add: loop_NewBuffer render_def lookbackAfter_def escaped_def backslashesBefore_def)

theorem brackets_by_backslash_parity_witness:
  "CHR 0x27 \<notin> set ([CHR 0x5C] @ ''<b>'') \<and> CHR 0x00 \<noteq> escapeByte \<and>
   markdownify (NewBuffer (([CHR 0x5C] @ ''<b>'') @ [CHR 0x27, CHR 0x27, CHR 0x27] @ ''<c>''))
     = ''<b'' @ [CHR 0x60, CHR 0x60, CHR 0x60, CHR 0x60] @ ''<c>''"
proof -
  let ?xs = "[CHR 0x5C] @ ''<b>''"
  let ?rest = "[CHR 0x27, CHR 0x27, CHR 0x27] @ ''<c>''"
  have h1: "CHR 0x27 \<notin> set ?xs" by simp
  have h2: "False \<longrightarrow> CHR ''*'' \<notin> set ?xs" by simp
  have h3: "CHR 0x00 \<noteq> escapeByte" by (simp add: escapeByte_def)
  have r: "render False ?xs = ''<b'' @ [CHR 0x60]"
    by code_simp
  have "markdownify (NewBuffer (?xs @ ?rest))
          = markdownify_loop (NewBuffer ?rest) (NewBuffer ([] @ render False ?xs))
              (lookbackAfter (CHR 0x00) ?xs) False"
    unfolding markdownify_def by (rule brackets_by_backslash_parity [OF h1 h2 h3])
  also have "\<dots> = ''<b'' @ [CHR 0x60, CHR 0x60, CHR 0x60, CHR 0x60] @ ''<c>''"
    unfolding r
    by (simp add: loop_NewBuffer escapeByte_def spaceAhead_def DecodeRune_def IsSpace_def)
  finally show ?thesis using h1 h3 by simp
qed

text \<open>
  The claim as written fails on \<^verbatim>\<open>a\\>\<close>: the \<^verbatim>\<open>>\<close> has a backslash right before it,
  and it is not emitted literally.
\<close>

theorem bracket_after_backslash_counterexample:
  "(''a'' @ [CHR 0x5C, CHR 0x5C] @ ''>'') ! 2 = CHR 0x5C \<and>
   (''a'' @ [CHR 0x5C, CHR 0x5C] @ ''>'') ! 3 = CHR ''>'' \<and>
   CHR ''>'' \<notin> set (markdownify (NewBuffer (''a'' @ [CHR 0x5C, CHR 0x5C] @ ''>'')))"
  by (simp add: markdownify_scan escapeByte_def)

text \<open>
  C6, as the code has it. Whenever a pass of the loop begins at a backslash with a
  lookback that is not a backslash, the backslash is not emitted; it only becomes the
  lookback. When the next byte is a backslash too, one backslash is emitted and the
  lookback is cleared. So a run of \<open>n\<close> backslashes read this way puts \<open>n div 2\<close>
  backslashes in the output: two consecutive backslashes give exactly one. A lone
  backslash is consumed: before a \<^verbatim>\<open><\<close> or \<^verbatim>\<open>>\<close> the bracket is emitted unchanged, before
  a plain byte only the plain byte is emitted, and at the end of the input nothing is.
\<close>

theorem backslash_run_halved:
  assumes "lastb \<noteq> escapeByte"
  shows "markdownify_loop (NewBuffer (replicate n escapeByte @ rest)) (NewBuffer out) lastb inCode
           = markdownify_loop (NewBuffer rest) (NewBuffer (out @ replicate (n div 2) escapeByte))
               (if odd n then escapeByte else if n = 0 then lastb else CHR 0x00) inCode
       \<and> (b = CHR ''<'' \<or> b = CHR ''>'' \<longrightarrow>
            markdownify_loop (NewBuffer (escapeByte # b # rest)) (NewBuffer out) lastb inCode
              = markdownify_loop (NewBuffer rest) (NewBuffer (out @ [b])) b inCode)
       \<and> (plain b \<longrightarrow>
            markdownify_loop (NewBuffer (escapeByte # b # rest)) (NewBuffer out) lastb inCode
              = markdownify_loop (NewBuffer rest) (NewBuffer (out @ [b])) b inCode)
       \<and> markdownify_loop (NewBuffer [escapeByte]) (NewBuffer out) lastb inCode = out"
  using assms scan_backslash_run[OF assms, of inCode n rest]
  by (auto simp: loop_NewBuffer plain_def escapeByte_def)

theorem backslash_run_halved_witness:
  "CHR 0x00 \<noteq> escapeByte \<and> plain (CHR ''b'') \<and>
   markdownify (NewBuffer ([CHR 0x5C, CHR 0x5C, CHR 0x5C] @ ''b'')) = [CHR 0x5C] @ ''b'' \<and>
   markdownify (NewBuffer ([CHR 0x5C] @ ''<'')) = ''<''"
proof -
  have h: "CHR 0x00 \<noteq> escapeByte" by (simp add: escapeByte_def)
  have pl: "plain (CHR ''b'')" by (simp add: plain_def escapeByte_def)
  note t = backslash_run_halved [OF h, where inCode = False and out = "[]"]
  have "markdownify (NewBuffer ([CHR 0x5C, CHR 0x5C, CHR 0x5C] @ ''b''))
          = markdownify_loop (NewBuffer (replicate 2 escapeByte @ (escapeByte # ''b''))) (NewBuffer [])
              (CHR 0x00) False"
    by (simp add: markdownify_def escapeByte_def numeral_2_eq_2)
  also have "\<dots> = markdownify_loop (NewBuffer (escapeByte # ''b'')) (NewBuffer ([] @ replicate (2 div 2) escapeByte))
               (CHR 0x00) False"
    using t [where n = 2 and rest = "escapeByte # ''b''" and b = "CHR ''b''", THEN conjunct1] by simp
  also have "\<dots> = markdownify_loop (NewBuffer []) (NewBuffer ([escapeByte] @ ''b'')) (CHR ''b'') False"
    using backslash_run_halved [OF h, where inCode = False and out = "[escapeByte]" and b = "CHR ''b''" and rest = "[]", THEN conjunct2, THEN conjunct2, THEN conjunct1] pl by simp
  also have "\<dots> = [CHR 0x5C] @ ''b''"
    by (simp add: loop_NewBuffer escapeByte_def)
  finally have a: "markdownify (NewBuffer ([CHR 0x5C, CHR 0x5C, CHR 0x5C] @ ''b'')) = [CHR 0x5C] @ ''b''" .
  have "markdownify (NewBuffer ([CHR 0x5C] @ ''<''))
          = markdownify_loop (NewBuffer (escapeByte # CHR ''<'' # [])) (NewBuffer []) (CHR 0x00) False"
    by (simp add: markdownify_def escapeByte_def)
  also have "\<dots> = markdownify_loop (NewBuffer []) (NewBuffer ([] @ [CHR ''<''])) (CHR ''<'') False"
    using t [where n = 0 and rest = "[]" and b = "CHR ''<''", THEN conjunct2, THEN conjunct1] by simp
  also have "\<dots> = ''<''"
    by (simp add: loop_NewBuffer)
  finally have b: "markdownify (NewBuffer ([CHR 0x5C] @ ''<'')) = ''<''" .
  from a b h pl show ?thesis by simp
qed

text \<open>
  The claim as written fails on \<^verbatim>\<open>a\b\<close>: the lone backslash is not followed by a
  bracket, and it is not in the output.
\<close>

theorem lone_backslash_counterexample:
  "markdownify (NewBuffer (''a'' @ [CHR 0x5C] @ ''b'')) = ''ab'' \<and>
   CHR 0x5C \<notin> set (markdownify (NewBuffer (''a'' @ [CHR 0x5C] @ ''b'')))"
  by (simp add: markdownify_scan escapeByte_def)

section \<open>Lines and header lines\<close>

lemma splitLines_nonempty [simp]: "splitLines s \<noteq> []"
  by (induction s) (auto simp: Let_def)





lemma replace_Nil [simp]: "sectionNameRe_replace f bol [] = Some []"
  by (simp add: sectionNameRe_replace.simps)

lemma replace_Cons_nomatch:
  "\<not> bol \<or> sectionNameRe_match (c # cs) = None \<Longrightarrow>
     sectionNameRe_replace f bol (c # cs)
       = map_option (\<lambda>r. c # r) (sectionNameRe_replace f (c = CHR 0x0A) cs)"
  by (subst sectionNameRe_replace.simps) auto













section \<open>Sections on positions\<close>

lemma find_map_option:
  "find P (map f xs) = map_option f (find (\<lambda>x. P (f x)) xs)"
  by (induction xs) auto

lemma find_upt_shift:
  "find P [a + k..<b + k] = map_option (\<lambda>x. x + k) (find (\<lambda>x. P (x + k)) [a..<b])"
proof -
  have "[a + k..<b + k] = map (\<lambda>x. x + k) [a..<b]"
    by (rule nth_equalityI) auto
  then show ?thesis by (simp add: find_map_option)
qed

lemma find_upt_Suc:
  "find P [Suc a..<Suc b] = map_option Suc (find (\<lambda>x. P (Suc x)) [a..<b])"
  using find_upt_shift[of P a 1 b] by simp

lemma Index_firstOccurrence:
  "Index s pat = (case firstOccurrence pat s of None \<Rightarrow> - 1 | Some i \<Rightarrow> int i)"
proof (induction s)
  case Nil
  show ?case by (simp add: firstOccurrence_def)
next
  case (Cons c cs)
  have u: "[0..<Suc (length (c # cs))] = 0 # [Suc 0..<Suc (Suc (length cs))]"
    by (simp add: upt_rec)
  have f: "firstOccurrence pat (c # cs)
             = (if prefix pat (c # cs) then Some 0
                else map_option Suc (firstOccurrence pat cs))"
    unfolding firstOccurrence_def u by (simp add: find_upt_Suc del: upt_Suc)
  show ?case unfolding f using Cons.IH
    by (cases "firstOccurrence pat cs") (simp_all add: Let_def)
qed

lemma firstOccurrence_Some:
  assumes "firstOccurrence pat s = Some i"
  shows "prefix pat (drop i s)" and "i + length pat \<le> length s"
    and "\<And>j. j < i \<Longrightarrow> \<not> prefix pat (drop j s)"
proof -
  from assms obtain k where k: "k < length [0..<Suc (length s)]"
    "prefix pat (drop ([0..<Suc (length s)] ! k) s)" "i = [0..<Suc (length s)] ! k"
    "\<forall>j<k. \<not> prefix pat (drop ([0..<Suc (length s)] ! j) s)"
    unfolding firstOccurrence_def find_Some_iff by blast
  from k(1) have kl: "k \<le> length s" by simp
  then have ik: "i = k" using k(3) by (simp del: upt_Suc)
  show p: "prefix pat (drop i s)" using k(2) k(3) by simp
  from p have "length pat \<le> length (drop i s)" by (rule prefix_length_le)
  then show "i + length pat \<le> length s" using kl ik by simp
  show "\<not> prefix pat (drop j s)" if "j < i" for j
  proof -
    from that ik kl have "j < k" "[0..<Suc (length s)] ! j = j" by (simp_all del: upt_Suc)
    with k(4) show ?thesis by metis
  qed
qed

lemma firstOccurrence_None:
  assumes "firstOccurrence pat s = None" and "j \<le> length s"
  shows "\<not> prefix pat (drop j s)"
  using assms unfolding firstOccurrence_def find_None_iff by (auto simp del: upt_Suc)

lemma firstOccurrence_eqI:
  assumes "prefix pat (drop i s)" and "i \<le> length s" and "\<And>j. j < i \<Longrightarrow> \<not> prefix pat (drop j s)"
  shows "firstOccurrence pat s = Some i"
proof (cases "firstOccurrence pat s")
  case None
  from firstOccurrence_None[OF None assms(2)] assms(1) show ?thesis by simp
next
  case (Some k)
  from firstOccurrence_Some[OF Some] have "prefix pat (drop k s)"
    and "\<And>j. j < k \<Longrightarrow> \<not> prefix pat (drop j s)" by auto
  with assms have "\<not> k < i" "\<not> i < k" by auto
  with Some show ?thesis by simp
qed

lemma headerLineAt_Cons_0: "headerLineAt bol (c # cs) 0 \<longleftrightarrow> bol \<and> prefix ''##'' (c # cs)"
  by (auto simp: headerLineAt_def)

lemma headerLineAt_Cons_Suc:
  "headerLineAt bol (c # cs) (Suc x) \<longleftrightarrow> headerLineAt (c = CHR 0x0A) cs x"
  by (cases x) (auto simp: headerLineAt_def)

lemma sectionRe_find_spec:
  "sectionRe_find bol t = find (headerLineAt bol t) [0..<length t]"
proof (induction t arbitrary: bol)
  case Nil
  show ?case by simp
next
  case (Cons c cs)
  have u: "[0..<length (c # cs)] = 0 # [Suc 0..<Suc (length cs)]"
    by (simp add: upt_rec)
  have r: "find (headerLineAt bol (c # cs)) [Suc 0..<Suc (length cs)]
             = map_option Suc (sectionRe_find (c = CHR 0x0A) cs)"
    unfolding find_upt_Suc headerLineAt_Cons_Suc Cons.IH ..
  show ?case
  proof (cases "bol \<and> prefix ''##'' (c # cs)")
    case True
    then have "headerLineAt bol (c # cs) 0" by (simp only: headerLineAt_Cons_0 simp_thms)
    then have "find (headerLineAt bol (c # cs)) [0..<length (c # cs)] = Some 0"
      unfolding u by (simp only: find.simps if_True)
    moreover have "sectionRe_find bol (c # cs) = Some 0"
      by (simp only: sectionRe_find.simps if_P[OF True])
    ultimately show ?thesis by simp
  next
    case False
    then have "\<not> headerLineAt bol (c # cs) 0" by (simp only: headerLineAt_Cons_0 not_False_eq_True)
    then have "find (headerLineAt bol (c # cs)) [0..<length (c # cs)]
                 = find (headerLineAt bol (c # cs)) [Suc 0..<Suc (length cs)]"
      unfolding u by (simp only: find.simps if_False)
    moreover have "sectionRe_find bol (c # cs) = map_option Suc (sectionRe_find (c = CHR 0x0A) cs)"
      by (simp only: sectionRe_find.simps if_not_P[OF False])
    ultimately show ?thesis using r by simp
  qed
qed

lemma headerLineAt_drop:
  assumes "0 < p"
  shows "headerLineAt bol (drop k s) p \<longleftrightarrow> headerLineAt True s (p + k)"
proof (cases "p + k \<le> length s")
  case True
  with assms have "drop k s ! (p - 1) = s ! (p + k - 1)"
    by (simp add: add.commute)
  with assms show ?thesis by (simp add: headerLineAt_def add.commute)
next
  case False
  then show ?thesis by (simp add: headerLineAt_def)
qed

lemma find_upt_cong:
  "(\<And>x. a \<le> x \<Longrightarrow> x < b \<Longrightarrow> P x = Q x) \<Longrightarrow> find P [a..<b] = find Q [a..<b]"
  by (rule find_cong) auto

lemma findSectionEnd_spec:
  "findSectionEnd h s = Some (case sectionExtentEnd h s of None \<Rightarrow> - 1 | Some e \<Rightarrow> int e)"
proof -
  define pat where "pat = ''## '' @ h"
  have lp: "3 \<le> length pat" by (simp add: pat_def)
  show ?thesis
  proof (cases "firstOccurrence pat s")
    case None
    then have "Index s pat = - 1" by (simp add: Index_firstOccurrence)
    with None show ?thesis
      unfolding findSectionEnd_def sectionExtentEnd_def header_def pat_def[symmetric] by simp
  next
    case (Some start)
    let ?k = "start + 2"
    let ?t = "drop ?k s"
    from firstOccurrence_Some[OF Some] have pre: "prefix pat (drop start s)"
      and len: "start + length pat \<le> length s" by auto
    from len lp have k: "?k < length s" by simp
    have ix: "Index s pat = int start"
      by (simp add: Index_firstOccurrence Some)
    have sl: "slice s (int start + 2) (int (length s)) = Some ?t"
      using k by (simp add: slice_def nat_add_distrib)
    from pre obtain z where dz: "drop start s = pat @ z" by (auto simp: prefix_def)
    have "?t = drop 2 (drop start s)" by (simp add: add.commute)
    then have t0: "?t = CHR '' '' # h @ z" unfolding dz pat_def by simp
    have n0: "\<not> headerLineAt True ?t 0" unfolding t0 by (simp add: headerLineAt_def)
    have lt: "length ?t = Suc (length s - Suc ?k)" using k by simp
    have u: "[0..<length ?t] = 0 # [Suc 0..<length ?t]"
      unfolding lt by (simp add: upt_rec del: upt_Suc)
    have "find (headerLineAt True ?t) [0..<length ?t] = find (headerLineAt True ?t) [1..<length ?t]"
      unfolding u using n0 by simp
    also have "\<dots> = find (\<lambda>x. headerLineAt True s (x + ?k)) [1..<length ?t]"
      by (rule find_upt_cong) (simp add: headerLineAt_drop)
    finally have f: "find (headerLineAt True ?t) [0..<length ?t]
                       = find (\<lambda>x. headerLineAt True s (x + ?k)) [1..<length ?t]" .
    have e1: "start + 3 = 1 + ?k" by simp
    have e2: "length s = length ?t + ?k" using k by simp
    have "find (headerLineAt True s) [start + 3..<length s]
            = find (headerLineAt True s) [1 + ?k..<length ?t + ?k]"
      using e1 e2 by (simp only:)
    also have "\<dots> = map_option (\<lambda>x. x + ?k) (find (\<lambda>x. headerLineAt True s (x + ?k)) [1..<length ?t])"
      by (rule find_upt_shift)
    finally have g: "find (headerLineAt True s) [start + 3..<length s]
            = map_option (\<lambda>x. x + ?k) (sectionRe_find True ?t)"
      unfolding sectionRe_find_spec f .
    show ?thesis
      unfolding findSectionEnd_def sectionExtentEnd_def header_def pat_def[symmetric] Some ix
      by (cases "sectionRe_find True ?t")
         (simp_all add: sl g sectionRe_FindStringIndex_def Let_def)
  qed
qed

lemma sectionExtentEnd_bounds:
  assumes "sectionExtentEnd h s = Some e"
  shows "\<exists>start. firstOccurrence (header h) s = Some start \<and> start + 3 \<le> e \<and> e \<le> length s"
proof -
  define pat where "pat = header h"
  have lp: "3 \<le> length pat" by (simp add: pat_def header_def)
  from assms obtain start where st: "firstOccurrence pat s = Some start"
    and e: "e = (case find (headerLineAt True s) [start + 3..<length s] of
                  None \<Rightarrow> length s | Some p \<Rightarrow> p)"
    unfolding sectionExtentEnd_def pat_def[symmetric] by (auto split: option.splits)
  from firstOccurrence_Some(2)[OF st] lp have l: "start + 3 \<le> length s" by simp
  have "start + 3 \<le> e \<and> e \<le> length s"
  proof (cases "find (headerLineAt True s) [start + 3..<length s]")
    case None
    with e l show ?thesis by simp
  next
    case (Some p)
    then have "p \<in> set [start + 3..<length s]"
      unfolding find_Some_iff by (metis nth_mem)
    with e Some show ?thesis by simp
  qed
  with st show ?thesis unfolding pat_def by blast
qed

lemma sectionExtentEnd_None:
  "sectionExtentEnd h s = None \<longleftrightarrow> firstOccurrence (header h) s = None"
  by (simp add: sectionExtentEnd_def split: option.splits)

lemma slice_take: "n \<le> length s \<Longrightarrow> slice s 0 (int n) = Some (take n s)"
  by (simp add: slice_def)

lemma slice_drop: "n \<le> length s \<Longrightarrow> slice s (int n) (int (length s)) = Some (drop n s)"
  by (simp add: slice_def)

lemma slice_mid:
  "a \<le> b \<Longrightarrow> b \<le> length s \<Longrightarrow> slice s (int a) (int b) = Some (take (b - a) (drop a s))"
  by (simp add: slice_def nat_diff_distrib')

lemma insertAt_ok:
  "p \<le> length s \<Longrightarrow> insertAt s (int p) span = Some (take p s @ span @ drop p s)"
  by (simp add: insertAt_def slice_take slice_drop)

lemma findSectionEnd_absent:
  "firstOccurrence (header h) s = None \<Longrightarrow> findSectionEnd h s = Some (- 1)"
  using findSectionEnd_spec[of h s] by (simp add: sectionExtentEnd_None[symmetric])

lemma findSectionEnd_present:
  assumes "firstOccurrence (header h) s \<noteq> None"
  shows "\<exists>p. sectionExtentEnd h s = Some p \<and> p \<le> length s \<and> findSectionEnd h s = Some (int p)"
proof -
  from assms obtain p where p: "sectionExtentEnd h s = Some p"
    using sectionExtentEnd_None[of h s] by (cases "sectionExtentEnd h s") auto
  from sectionExtentEnd_bounds[OF p] have "p \<le> length s" by auto
  with p findSectionEnd_spec[of h s] show ?thesis by simp
qed

lemma place_step:
  "(do { newLoc \<leftarrow> findSectionEnd h rest;
         if newLoc \<noteq> - 1 then insertAt rest newLoc span else k })
     = (case sectionExtentEnd h rest of
          None \<Rightarrow> k | Some p \<Rightarrow> Some (take p rest @ span @ drop p rest))"
proof (cases "firstOccurrence (header h) rest = None")
  case True
  with findSectionEnd_absent[OF True] show ?thesis
    by (simp add: sectionExtentEnd_None[symmetric])
next
  case False
  from findSectionEnd_present[OF False] obtain p where
    "sectionExtentEnd h rest = Some p" "p \<le> length rest" "findSectionEnd h rest = Some (int p)"
    by blast
  then show ?thesis by (simp add: insertAt_ok)
qed

lemma relocateOptions_chain:
  "relocateOptions s =
     (let optLoc = Index s ''## OPTIONS'' in
      if optLoc \<noteq> - 1 then
        do {
          optEnd \<leftarrow> findSectionEnd ''OPTIONS'' s;
          if optEnd \<noteq> - 1 then
            do {
              options \<leftarrow> slice s optLoc optEnd;
              a \<leftarrow> slice s 0 optLoc;
              b \<leftarrow> slice s optEnd (int (length s));
              let s = a @ b;
              Some (case firstTarget s of
                      None \<Rightarrow> s @ options
                    | Some h \<Rightarrow>
                        (case sectionExtentEnd h s of
                           None \<Rightarrow> s @ options
                         | Some p \<Rightarrow> take p s @ options @ drop p s))
            }
          else Some s
        }
      else Some s)"
proof -
  have t: "(case sectionExtentEnd ''POSITIONAL ARGUMENTS'' r of
            None \<Rightarrow>
              (case sectionExtentEnd ''Description'' r of
                 None \<Rightarrow>
                   (case sectionExtentEnd ''USAGE'' r of
                      None \<Rightarrow>
                        (case sectionExtentEnd ''NAME'' r of
                           None \<Rightarrow> Some (r @ sp)
                         | Some p \<Rightarrow> Some (take p r @ sp @ drop p r))
                    | Some p \<Rightarrow> Some (take p r @ sp @ drop p r))
               | Some p \<Rightarrow> Some (take p r @ sp @ drop p r))
          | Some p \<Rightarrow> Some (take p r @ sp @ drop p r))
        = Some (case firstTarget r of
                  None \<Rightarrow> r @ sp
                | Some h \<Rightarrow>
                    (case sectionExtentEnd h r of
                       None \<Rightarrow> r @ sp
                     | Some p \<Rightarrow> take p r @ sp @ drop p r))" for r sp
    unfolding firstTarget_def targets_def
    by (simp add: sectionExtentEnd_None[symmetric] split: option.splits)
  show ?thesis
    unfolding relocateOptions_def place_step t ..
qed

lemma find_upt_Some_iff:
  "find P [a..<b] = Some e \<longleftrightarrow> a \<le> e \<and> e < b \<and> P e \<and> (\<forall>p. a \<le> p \<and> p < e \<longrightarrow> \<not> P p)"
proof
  assume "find P [a..<b] = Some e"
  then obtain i where i: "i < length [a..<b]" "P ([a..<b] ! i)" "e = [a..<b] ! i"
    "\<forall>j<i. \<not> P ([a..<b] ! j)" unfolding find_Some_iff by blast
  from i(1) have ib: "i < b - a" by simp
  with i(3) have e: "e = a + i" by simp
  have "\<not> P p" if "a \<le> p" "p < e" for p
  proof -
    from that e have "p - a < i" by simp
    with i(4) have "\<not> P ([a..<b] ! (p - a))" by blast
    moreover from that e ib have "[a..<b] ! (p - a) = p" by simp
    ultimately show ?thesis by simp
  qed
  with i(2) e ib show "a \<le> e \<and> e < b \<and> P e \<and> (\<forall>p. a \<le> p \<and> p < e \<longrightarrow> \<not> P p)"
    by simp
next
  assume r: "a \<le> e \<and> e < b \<and> P e \<and> (\<forall>p. a \<le> p \<and> p < e \<longrightarrow> \<not> P p)"
  then have "e - a < b - a" by arith
  with r have "e - a < length [a..<b]" and "[a..<b] ! (e - a) = e" by simp_all
  moreover have "\<forall>j<e - a. \<not> P ([a..<b] ! j)"
  proof (intro allI impI)
    fix j assume j: "j < e - a"
    with r have lt: "a + j < e" and ltb: "a + j < b" by arith+
    from ltb have "[a..<b] ! j = a + j" by simp
    with r lt show "\<not> P ([a..<b] ! j)" by simp
  qed
  ultimately show "find P [a..<b] = Some e"
    unfolding find_Some_iff using r by metis
qed

lemma find_upt_None_iff:
  "find P [a..<b] = None \<longleftrightarrow> (\<forall>p. a \<le> p \<and> p < b \<longrightarrow> \<not> P p)"
  unfolding find_None_iff by auto

lemma prefix_nth_iff:
  "prefix p x \<longleftrightarrow> length p \<le> length x \<and> (\<forall>i<length p. x ! i = p ! i)"
proof
  assume "prefix p x"
  then obtain z where "x = p @ z" by (auto simp: prefix_def)
  then show "length p \<le> length x \<and> (\<forall>i<length p. x ! i = p ! i)"
    by (simp add: nth_append)
next
  assume a: "length p \<le> length x \<and> (\<forall>i<length p. x ! i = p ! i)"
  then have "take (length p) x = p"
    by (intro nth_equalityI) auto
  then show "prefix p x" by (metis take_is_prefix)
qed

lemma prefix_drop_nth:
  "prefix p (drop j t) \<longleftrightarrow> (if j \<le> length t then j + length p \<le> length t \<and> (\<forall>i<length p. t ! (j + i) = p ! i) else p = [])"
  by (auto simp: prefix_nth_iff)

lemma headerLineAt_nth:
  "0 < p \<Longrightarrow>
     headerLineAt bol t p \<longleftrightarrow>
       p + 2 \<le> length t \<and> t ! p = CHR ''#'' \<and> t ! (p + 1) = CHR ''#'' \<and> t ! (p - 1) = CHR 0x0A"
  unfolding headerLineAt_def prefix_drop_nth
  by (auto simp: less_Suc_eq numeral_2_eq_2)

lemma nth_take_append: "i < a \<Longrightarrow> a \<le> length s \<Longrightarrow> (take a s @ w) ! i = s ! i"
  by (simp add: nth_append)

lemma headerLineAt_excised:
  assumes "0 < p" and "p + 2 \<le> a" and "a \<le> length s"
  shows "headerLineAt True (take a s @ w) p \<longleftrightarrow> headerLineAt True s p"
  using assms by (simp add: headerLineAt_nth nth_take_append)

lemma prefix_excised:
  assumes "j + length pat \<le> a" and "a \<le> length s"
  shows "prefix pat (drop j (take a s @ w)) \<longleftrightarrow> prefix pat (drop j s)"
proof -
  let ?t = "take a s @ w"
  have l: "j \<le> length ?t" "j + length pat \<le> length ?t" "j \<le> length s" "j + length pat \<le> length s"
    using assms by simp_all
  have n: "?t ! (j + i) = s ! (j + i)" if "i < length pat" for i
    using that assms by (intro nth_take_append) simp_all
  have "prefix pat (drop j ?t) \<longleftrightarrow> (\<forall>i<length pat. ?t ! (j + i) = pat ! i)"
    unfolding prefix_drop_nth using l by (simp only: if_True simp_thms)
  also have "\<dots> \<longleftrightarrow> (\<forall>i<length pat. s ! (j + i) = pat ! i)"
    using n by simp
  also have "\<dots> \<longleftrightarrow> prefix pat (drop j s)"
    unfolding prefix_drop_nth using l by (simp only: if_True simp_thms)
  finally show ?thesis .
qed

lemma scan_identity:
  assumes "CHR ''<'' \<notin> set xs" "CHR ''>'' \<notin> set xs" "CHR 0x27 \<notin> set xs" "escapeByte \<notin> set xs"
  shows "scan l False xs = xs"
  using assms by (induction xs arbitrary: l) auto

lemma headerLineAt_beyond: "length t \<le> p \<Longrightarrow> \<not> headerLineAt bol t p"
  by (simp add: headerLineAt_def)

lemma noHeaderLines_iff: "noHeaderLines s \<longleftrightarrow> (\<forall>p. \<not> headerLineAt True s p)"
proof
  assume n: "noHeaderLines s"
  show "\<forall>p. \<not> headerLineAt True s p"
  proof
    fix p
    show "\<not> headerLineAt True s p"
    proof (cases "p < length s")
      case True
      with n show ?thesis by (simp add: noHeaderLines_def list_all_iff)
    next
      case False
      then show ?thesis by (simp add: headerLineAt_beyond)
    qed
  qed
next
  assume "\<forall>p. \<not> headerLineAt True s p"
  then show "noHeaderLines s" by (simp add: noHeaderLines_def list_all_iff)
qed

lemma replace_no_header:
  "(\<forall>p. \<not> headerLineAt bol t p) \<Longrightarrow> sectionNameRe_replace f bol t = Some t"
proof (induction t arbitrary: bol)
  case Nil
  show ?case by (rule replace_Nil)
next
  case (Cons c cs)
  have nm: "\<not> bol \<or> sectionNameRe_match (c # cs) = None"
  proof (cases bol)
    case False
    then show ?thesis by simp
  next
    case True
    from Cons.prems have "\<not> headerLineAt bol (c # cs) 0" by blast
    with True have "\<not> prefix ''##'' (c # cs)" by (simp only: headerLineAt_Cons_0 simp_thms)
    moreover have "prefix ''##'' ''## ''" by simp
    ultimately have "\<not> prefix ''## '' (c # cs)" using prefix_order.trans by blast
    then show ?thesis by (simp only: sectionNameRe_match_def simp_thms if_False)
  qed
  have "\<forall>p. \<not> headerLineAt (c = CHR 0x0A) cs p"
    using Cons.prems headerLineAt_Cons_Suc by blast
  from Cons.IH[OF this] show ?case
    by (simp add: replace_Cons_nomatch[OF nm])
qed

lemma headerLineAt_take:
  assumes "headerLineAt bol (take a s) p"
  shows "headerLineAt bol s p"
proof -
  from assms have pr: "prefix ''##'' (drop p (take a s))"
    and c: "if p = 0 then bol else take a s ! (p - 1) = CHR 0x0A"
    unfolding headerLineAt_def by blast+
  have "drop p (take a s) = take (a - p) (drop p s)" by (simp add: drop_take)
  then have "prefix (drop p (take a s)) (drop p s)" by (simp add: take_is_prefix)
  with pr have p1: "prefix ''##'' (drop p s)" using prefix_order.trans by blast
  from pr have "drop p (take a s) \<noteq> []" by auto
  then have "p < a" by (auto simp: min_def split: if_splits)
  then have "take a s ! (p - 1) = s ! (p - 1)" by simp
  with c have "if p = 0 then bol else s ! (p - 1) = CHR 0x0A" by (auto split: if_splits)
  with p1 show ?thesis by (simp add: headerLineAt_def)
qed

lemma sectionExtentEnd_no_header:
  assumes "noHeaderLines s" and "sectionExtentEnd h s = Some e"
  shows "e = length s"
proof -
  from assms(2) obtain start where
    e: "e = (case find (headerLineAt True s) [start + 3..<length s] of
               None \<Rightarrow> length s | Some p \<Rightarrow> p)"
    unfolding sectionExtentEnd_def by (cases "firstOccurrence (header h) s") auto
  from assms(1) have "find (headerLineAt True s) [start + 3..<length s] = None"
    unfolding find_upt_None_iff noHeaderLines_iff by blast
  with e show ?thesis by simp
qed

lemma relocated_no_header:
  assumes "noHeaderLines s"
  shows "relocated s = s"
proof (cases "firstOccurrence ''## OPTIONS'' s")
  case None
  then show ?thesis by (simp add: relocated_def)
next
  case (Some optLoc)
  have hd: "header ''OPTIONS'' = ''## OPTIONS''" by (simp add: header_def)
  from Some have "firstOccurrence (header ''OPTIONS'') s \<noteq> None" by (simp add: hd)
  then obtain optEnd where e: "sectionExtentEnd ''OPTIONS'' s = Some optEnd"
    using sectionExtentEnd_None[of "''OPTIONS''" s] by (cases "sectionExtentEnd ''OPTIONS'' s") auto
  from sectionExtentEnd_no_header[OF assms e] have oe: "optEnd = length s" .
  from sectionExtentEnd_bounds[OF e] Some have lo: "optLoc \<le> length s" by (auto simp: hd)
  let ?rest = "take optLoc s"
  let ?span = "drop optLoc s"
  have nr: "noHeaderLines ?rest"
    unfolding noHeaderLines_iff using assms headerLineAt_take unfolding noHeaderLines_iff by blast
  have "(case firstTarget ?rest of
           None \<Rightarrow> ?rest @ ?span
         | Some h \<Rightarrow>
             (case sectionExtentEnd h ?rest of
                None \<Rightarrow> ?rest @ ?span
              | Some p \<Rightarrow> take p ?rest @ ?span @ drop p ?rest)) = s"
  proof (cases "firstTarget ?rest")
    case None
    then show ?thesis by simp
  next
    case (Some h)
    show ?thesis
    proof (cases "sectionExtentEnd h ?rest")
      case None
      with Some show ?thesis by simp
    next
      case (Some p)
      from sectionExtentEnd_no_header[OF nr Some] lo have "p = optLoc" by simp
      with Some \<open>firstTarget ?rest = Some h\<close> lo show ?thesis by simp
    qed
  qed
  with Some e oe lo show ?thesis by (simp add: relocated_def Let_def)
qed



lemma relocateOptions_relocated:
  "relocateOptions s = Some (relocated s)"
proof (cases "firstOccurrence (header ''OPTIONS'') s")
  case None
  then have "Index s ''## OPTIONS'' = - 1"
    by (simp add: Index_firstOccurrence header_def)
  moreover from None have "relocated s = s" by (simp add: relocated_def header_def)
  ultimately show ?thesis by (simp add: relocateOptions_def)
next
  case (Some optLoc)
  then have ix: "Index s ''## OPTIONS'' = int optLoc"
    by (simp add: Index_firstOccurrence header_def)
  from Some have "firstOccurrence (header ''OPTIONS'') s \<noteq> None" by simp
  from findSectionEnd_present[OF this] obtain optEnd where
    e: "sectionExtentEnd ''OPTIONS'' s = Some optEnd" and le: "optEnd \<le> length s"
    and fe: "findSectionEnd ''OPTIONS'' s = Some (int optEnd)" by blast
  from sectionExtentEnd_bounds[OF e] Some have lo: "optLoc + 3 \<le> optEnd" by auto
  have s1: "slice s (int optLoc) (int optEnd) = Some (take (optEnd - optLoc) (drop optLoc s))"
    using lo le by (simp add: slice_mid)
  have s2: "slice s 0 (int optLoc) = Some (take optLoc s)"
    using lo le by (simp add: slice_take)
  have s3: "slice s (int optEnd) (int (length s)) = Some (drop optEnd s)"
    using le by (simp add: slice_drop)
  have "relocated s =
          (let span = take (optEnd - optLoc) (drop optLoc s);
               rest = take optLoc s @ drop optEnd s
           in case firstTarget rest of
                None \<Rightarrow> rest @ span
              | Some h \<Rightarrow>
                  (case sectionExtentEnd h rest of
                     None \<Rightarrow> rest @ span
                   | Some p \<Rightarrow> take p rest @ span @ drop p rest))"
    using Some e by (simp add: relocated_def header_def)
  then show ?thesis
    unfolding relocateOptions_chain by (simp add: ix fe s1 s2 s3 Let_def)
qed

section \<open>Relocation and capitalisation\<close>




text \<open>
  C4, as the code has it. For every input without \<^verbatim>\<open><\<close>, without \<^verbatim>\<open>>\<close>, without single
  quotes, without backslashes, and in which no line begins with \<^verbatim>\<open>##\<close>, the output of
  \<^verbatim>\<open>helpPreprocessor\<close> is the input, in both modes. Asterisks are allowed: outside a code
  block they are copied. The claim as written allows backslashes, which the escape
  transform consumes.
\<close>

theorem identity_without_markup:
  assumes "CHR ''<'' \<notin> set text" and "CHR ''>'' \<notin> set text" and "CHR 0x27 \<notin> set text"
    and "escapeByte \<notin> set text" and "noHeaderLines text"
  shows "helpPreprocessor mapLower text capOnlyFirst = Some text"
proof -
  have m: "markdownify (NewBuffer text) = text"
    using assms(1-4) by (simp add: markdownify_scan scan_identity)
  have r: "relocateOptions text = Some text"
    by (simp add: relocateOptions_relocated relocated_no_header[OF assms(5)])
  have c: "sectionNameRe_ReplaceAllStringFunc text (capFirst mapLower) = Some text"
    unfolding sectionNameRe_ReplaceAllStringFunc_def
    using assms(5) by (intro replace_no_header) (simp add: noHeaderLines_iff)
  show ?thesis by (simp add: helpPreprocessor_def m r c)
qed

theorem identity_without_markup_witness:
  "CHR ''<'' \<notin> set ''generate *random* strings'' \<and>
   escapeByte \<notin> set ''generate *random* strings'' \<and>
   noHeaderLines ''generate *random* strings'' \<and>
   helpPreprocessor id ''generate *random* strings'' True = Some ''generate *random* strings''"
proof -
  let ?t = "''generate *random* strings''"
  have h1: "CHR ''<'' \<notin> set ?t" by simp
  have h2: "CHR ''>'' \<notin> set ?t" by simp
  have h3: "CHR 0x27 \<notin> set ?t" by simp
  have h4: "escapeByte \<notin> set ?t" by (simp add: escapeByte_def)
  have h5: "noHeaderLines ?t" by code_simp
  from identity_without_markup [OF h1 h2 h3 h4 h5, of id True] h1 h4 h5
  show ?thesis by (intro conjI)
qed

text \<open>
  The claim as written fails on \<^verbatim>\<open>a\b\<close>: it has no bracket, no quote and no header
  line, and the output is \<^verbatim>\<open>ab\<close>.
\<close>

theorem identity_counterexample:
  "CHR ''<'' \<notin> set (''a'' @ [CHR 0x5C] @ ''b'') \<and> CHR ''>'' \<notin> set (''a'' @ [CHR 0x5C] @ ''b'') \<and>
   CHR 0x27 \<notin> set (''a'' @ [CHR 0x5C] @ ''b'') \<and> noHeaderLines (''a'' @ [CHR 0x5C] @ ''b'') \<and>
   helpPreprocessor id (''a'' @ [CHR 0x5C] @ ''b'') False = Some ''ab''"
proof -
  have "noHeaderLines (''a'' @ [CHR 0x5C] @ ''b'')" by code_simp
  moreover have "relocateOptions ''ab'' = Some ''ab''" by code_simp
  ultimately show ?thesis
    by (simp add: helpPreprocessor_def markdownify_scan escapeByte_def)
qed

end
